theory Spec2Isabelle
  imports Main "HOL-Library.Sublist"
begin

section \<open>The support-case reconciliation loop of \<^verbatim>\<open>case_updates.py\<close>\<close>

text \<open>
  The module polls the open support cases of an organisation, compares them with the
  snapshots kept in Firestore and posts every detected change to Slack. The functions it
  imports (\<^verbatim>\<open>firestore_write\<close>, \<^verbatim>\<open>get_firestore_first_in\<close>, \<^verbatim>\<open>notify_slack\<close>, ...) live in
  other modules; here they are the fields of a record of collaborators, each of which
  transforms an outside world of arbitrary type \<open>'w\<close>. Whatever other processes do to the
  shared store is part of that world. Every call is also appended to a trace, together with
  the value it returned, so that properties of the control flow are properties of the trace.
\<close>

subsection \<open>Data\<close>

text \<open>The exceptions that the module catches or can raise itself.\<close>

datatype exn =
    BrokenPipeError
  | NameError
  | UnboundLocalError
  | TypeError
  | IndexError
  | AttributeError
  | KeyError
  | HttpError

text \<open>
  Modelled from the spec: the class \<^verbatim>\<open>SupportCase\<close> is defined in another module; a comment
  has a creator (an identity string), a body and a creation time, and a case has the fields
  that \<^verbatim>\<open>case_updates\<close> reads.
\<close>

record comment =
  creator :: string
  body :: string
  create_time :: string

record case_rec =
  case_number :: string
  update_time :: string
  comment_list :: "comment list"
  priority :: string
  escalated :: bool

type_synonym guid = string

text \<open>The document returned by \<^verbatim>\<open>get_firestore_first_in\<close>; only its \<^verbatim>\<open>guid\<close> is read.\<close>

record first_doc =
  fd_guid :: guid

text \<open>
  \<^verbatim>\<open>notify_slack\<close> is called with a case number in all places but one, which passes the whole
  case; its third argument is a string or the escalation flag.
\<close>

datatype subject = CaseNumber string | WholeCase case_rec

datatype payload = PStr string | PBool bool

record asset_item =
  asset_id :: string
  channel_id :: string
  cc_list :: "string list"
  user_id :: string

text \<open>A project resource is a dictionary; \<^verbatim>\<open>auto_cc\<close> reads its key \<^verbatim>\<open>parent\<close>.\<close>

record project =
  parent :: "string option"

datatype effect =
    GetCases
  | Search
  | Parse
  | Write case_rec guid
  | FirstIn string string "first_doc option"
  | Notify subject string payload
  | Delete string
  | Sleep nat
  | LogError exn
  | TrackedAssets
  | GetParent string
  | ProjectsGet string
  | CollectionGet string string
  | Subscribe string string "string list" string
  | AddComment string string string string string bool

record ('w, 'raw) adapters =
  get_firestore_cases :: "'w \<Rightarrow> case_rec list \<times> 'w"
  search_cases :: "'w \<Rightarrow> (exn + 'raw list) \<times> 'w"
  SupportCase :: "'raw \<Rightarrow> 'w \<Rightarrow> (exn + case_rec) \<times> 'w"
  firestore_write :: "case_rec \<Rightarrow> 'w \<Rightarrow> guid \<times> 'w"
  get_firestore_first_in :: "string \<Rightarrow> string \<Rightarrow> 'w \<Rightarrow> first_doc option \<times> 'w"
  firestore_delete_cases :: "string \<Rightarrow> 'w \<Rightarrow> 'w"
  notify_slack :: "subject \<Rightarrow> string \<Rightarrow> payload \<Rightarrow> 'w \<Rightarrow> 'w"
  sleep :: "nat \<Rightarrow> 'w \<Rightarrow> 'w"
  tracked_assets :: "'w \<Rightarrow> string list \<times> 'w"
  get_parent :: "string \<Rightarrow> 'w \<Rightarrow> string \<times> 'w"
  projects_get :: "string \<Rightarrow> 'w \<Rightarrow> (exn + project) \<times> 'w"
  collection_get :: "string \<Rightarrow> string \<Rightarrow> 'w \<Rightarrow> asset_item list \<times> 'w"
  support_subscribe_email ::
    "string \<Rightarrow> string \<Rightarrow> string list \<Rightarrow> string \<Rightarrow> 'w \<Rightarrow> string list \<times> 'w"
  support_add_comment ::
    "string \<Rightarrow> string \<Rightarrow> string \<Rightarrow> string \<Rightarrow> string \<Rightarrow> bool \<Rightarrow> 'w \<Rightarrow> 'w"

text \<open>
  The state of one process: the outside world, the trace of calls made so far, and the
  local variables of \<^verbatim>\<open>case_updates\<close> that outlive a loop iteration. \<^verbatim>\<open>guid\<close> and
  \<^verbatim>\<open>first_doc_in\<close> are unbound (\<open>None\<close>) until the first assignment and keep their last
  value afterwards, also across iterations of \<^verbatim>\<open>while True\<close>.
\<close>

record 'w pstate =
  world :: 'w
  trace :: "effect list"
  guid_var :: "guid option"
  first_doc_in_var :: "first_doc option option"
  closed_cases :: "string list"

definition sentinel :: string where
  "sentinel = ''2100-12-31 23:59:59+00:00''"

subsection \<open>Calls to the collaborators\<close>

definition emit :: "effect \<Rightarrow> 'w pstate \<Rightarrow> 'w pstate" where
  "emit e s = s\<lparr>trace := trace s @ [e]\<rparr>"

definition do_write ::
  "('w, 'raw) adapters \<Rightarrow> case_rec \<Rightarrow> 'w pstate \<Rightarrow> guid \<times> 'w pstate" where
  "do_write A c s =
     (let (g, w) = firestore_write A c (world s)
      in (g, emit (Write c g) (s\<lparr>world := w\<rparr>)))"

definition do_first_in ::
  "('w, 'raw) adapters \<Rightarrow> string \<Rightarrow> string \<Rightarrow> 'w pstate \<Rightarrow> first_doc option \<times> 'w pstate" where
  "do_first_in A cn ut s =
     (let (fd, w) = get_firestore_first_in A cn ut (world s)
      in (fd, emit (FirstIn cn ut fd) (s\<lparr>world := w\<rparr>)))"

definition do_notify ::
  "('w, 'raw) adapters \<Rightarrow> subject \<Rightarrow> string \<Rightarrow> payload \<Rightarrow> 'w pstate \<Rightarrow> 'w pstate" where
  "do_notify A sub kind pl s =
     emit (Notify sub kind pl) (s\<lparr>world := notify_slack A sub kind pl (world s)\<rparr>)"

definition do_sleep :: "('w, 'raw) adapters \<Rightarrow> nat \<Rightarrow> 'w pstate \<Rightarrow> 'w pstate" where
  "do_sleep A n s = emit (Sleep n) (s\<lparr>world := sleep A n (world s)\<rparr>)"

definition do_delete :: "('w, 'raw) adapters \<Rightarrow> string \<Rightarrow> 'w pstate \<Rightarrow> 'w pstate" where
  "do_delete A cn s = emit (Delete cn) (s\<lparr>world := firestore_delete_cases A cn (world s)\<rparr>)"

text \<open>\<^verbatim>\<open>logger.error\<close> touches nothing but the log.\<close>

definition do_log :: "exn \<Rightarrow> 'w pstate \<Rightarrow> 'w pstate" where
  "do_log e s = emit (LogError e) s"

subsection \<open>Closure detection (lines 104 to 121)\<close>

text \<open>
  The inner loop over \<^verbatim>\<open>temp_cases\<close> clears \<^verbatim>\<open>delete_entry\<close> at the first live case with the
  same number. A snapshot that is marked is mutated in place, so the list \<^verbatim>\<open>cases\<close> seen by
  the later steps holds the marked snapshot; the step returns it.
\<close>

definition closure_step ::
  "('w, 'raw) adapters \<Rightarrow> case_rec list \<Rightarrow> case_rec \<Rightarrow> 'w pstate \<Rightarrow> case_rec \<times> 'w pstate" where
  "closure_step A temp_cases fs_case s =
     (let delete_entry =
            (if update_time fs_case = sentinel then False
             else \<not> list_ex (\<lambda>t_case. case_number t_case = case_number fs_case) temp_cases)
      in if delete_entry then
           (let fs' = fs_case\<lparr>update_time := sentinel\<rparr>;
                (g, s1) = do_write A fs' s;
                s2 = s1\<lparr>guid_var := Some g\<rparr>;
                (fd, s3) = do_first_in A (case_number fs') (update_time fs') s2;
                s4 = s3\<lparr>first_doc_in_var := Some fd\<rparr>
            in case fd of
                 None \<Rightarrow> (fs', s4)
               | Some d \<Rightarrow>
                   if g = fd_guid d then
                     (let s5 = do_notify A (CaseNumber (case_number fs')) ''closed'' (PStr '''') s4
                      in (fs', s5\<lparr>closed_cases := closed_cases s5 @ [case_number fs']\<rparr>))
                   else (fs', s4))
         else (fs_case, s))"

fun closure_loop ::
  "('w, 'raw) adapters \<Rightarrow> case_rec list \<Rightarrow> case_rec list \<Rightarrow> 'w pstate
     \<Rightarrow> case_rec list \<times> 'w pstate" where
  "closure_loop A temp_cases [] s = ([], s)"
| "closure_loop A temp_cases (fs_case # rest) s =
     (let (fs', s1) = closure_step A temp_cases fs_case s;
          (rest', s2) = closure_loop A temp_cases rest s1
      in (fs' # rest', s2))"

subsection \<open>Strings and regular expressions\<close>

text \<open>Python's \<^verbatim>\<open>sub in s\<close> on strings.\<close>

fun contains :: "string \<Rightarrow> string \<Rightarrow> bool" where
  "contains sub [] = (sub = [])"
| "contains sub (c # cs) = (prefix sub (c # cs) \<or> contains sub cs)"

text \<open>\<^verbatim>\<open>sep.join(xs)\<close> and \<^verbatim>\<open>s.split(d)\<close> for a one-character separator.\<close>

fun join :: "string \<Rightarrow> string list \<Rightarrow> string" where
  "join sep [] = []"
| "join sep [x] = x"
| "join sep (x # y # ys) = x @ sep @ join sep (y # ys)"

fun split_on :: "char \<Rightarrow> string \<Rightarrow> string list" where
  "split_on d [] = [[]]"
| "split_on d (c # cs) =
     (if c = d then [] # split_on d cs
      else (case split_on d cs of [] \<Rightarrow> [[c]] | w # ws \<Rightarrow> (c # w) # ws))"

definition nth_or_raise :: "'a list \<Rightarrow> nat \<Rightarrow> exn + 'a" where
  "nth_or_raise xs n = (if n < length xs then Inr (xs ! n) else Inl IndexError)"

definition not_slash :: "char \<Rightarrow> bool" where
  "not_slash c = (c \<noteq> CHR ''/'')"

definition is_digit :: "char \<Rightarrow> bool" where
  "is_digit c = (c \<in> set ''0123456789'')"

text \<open>
  The three patterns of \<^verbatim>\<open>auto_cc\<close> are a literal followed by one or more characters of a
  class (\<^verbatim>\<open>[^\/]+\<close> or \<^verbatim>\<open>\d+\<close>). \<open>match_here\<close> matches such a pattern at the start of a
  string, greedily; \<^verbatim>\<open>re.search\<close> returns the leftmost match and \<^verbatim>\<open>re.findall\<close> all
  matches, each search resuming where the previous match ended. Characters are bytes here,
  so \<^verbatim>\<open>\d\<close> is an ASCII digit.
\<close>

definition match_here :: "string \<Rightarrow> (char \<Rightarrow> bool) \<Rightarrow> string \<Rightarrow> string option" where
  "match_here lit cls s =
     (if prefix lit s then
        (let r = takeWhile cls (drop (length lit) s)
         in if r = [] then None else Some (lit @ r))
      else None)"

fun re_search :: "string \<Rightarrow> (char \<Rightarrow> bool) \<Rightarrow> string \<Rightarrow> string option" where
  "re_search lit cls [] = match_here lit cls []"
| "re_search lit cls (c # cs) =
     (case match_here lit cls (c # cs) of
        Some m \<Rightarrow> Some m
      | None \<Rightarrow> re_search lit cls cs)"

function re_findall :: "string \<Rightarrow> (char \<Rightarrow> bool) \<Rightarrow> string \<Rightarrow> string list" where
  "re_findall lit cls s =
     (case match_here lit cls s of
        Some m \<Rightarrow> m # re_findall lit cls (drop (length m) s)
      | None \<Rightarrow> (case s of [] \<Rightarrow> [] | c # cs \<Rightarrow> re_findall lit cls cs))"
  by pat_completeness auto
termination
proof (relation "measure (\<lambda>(lit, cls, s). length s)")
  show "wf (measure (\<lambda>(lit, cls, s). length s))" by simp
next
  fix lit :: string and cls :: "char \<Rightarrow> bool" and s m :: string
  assume "match_here lit cls s = Some m"
  then have "m \<noteq> []" and "s \<noteq> []"
    by (auto simp: match_here_def Let_def split: if_splits)
  then show "((lit, cls, drop (length m) s), (lit, cls, s)) \<in> measure (\<lambda>(lit, cls, s). length s)"
    by simp
next
  fix lit :: string and cls :: "char \<Rightarrow> bool" and s cs :: string and c :: char
  assume "s = c # cs"
  then show "((lit, cls, cs), (lit, cls, s)) \<in> measure (\<lambda>(lit, cls, s). length s)"
    by simp
qed

definition second_segment :: "string \<Rightarrow> exn + string" where
  "second_segment s = nth_or_raise (split_on (CHR ''/'') s) 1"

subsection \<open>Update detection for existing cases (lines 125 to 150)\<close>

definition and_then ::
  "(exn + 'a) \<times> 's \<Rightarrow> ('a \<Rightarrow> 's \<Rightarrow> (exn + 'b) \<times> 's) \<Rightarrow> (exn + 'b) \<times> 's" where
  "and_then r f = (case r of (Inl e, s) \<Rightarrow> (Inl e, s) | (Inr a, s) \<Rightarrow> f a s)"

text \<open>
  The test \<^verbatim>\<open>guid == first_doc_in["guid"]\<close>: reading an unbound local raises
  \<^verbatim>\<open>UnboundLocalError\<close>, subscripting \<^verbatim>\<open>None\<close> raises \<^verbatim>\<open>TypeError\<close>.
\<close>

definition gate :: "'w pstate \<Rightarrow> exn + bool" where
  "gate s =
     (case guid_var s of
        None \<Rightarrow> Inl UnboundLocalError
      | Some g \<Rightarrow>
          (case first_doc_in_var s of
             None \<Rightarrow> Inl UnboundLocalError
           | Some None \<Rightarrow> Inl TypeError
           | Some (Some d) \<Rightarrow> Inr (g = fd_guid d)))"

definition gated_notify ::
  "('w, 'raw) adapters \<Rightarrow> subject \<Rightarrow> string \<Rightarrow> payload \<Rightarrow> 'w pstate
     \<Rightarrow> (exn + unit) \<times> 'w pstate" where
  "gated_notify A sub kind pl s =
     (case gate s of
        Inl e \<Rightarrow> (Inl e, s)
      | Inr b \<Rightarrow> (Inr (), if b then do_notify A sub kind pl s else s))"

definition check_comment ::
  "('w, 'raw) adapters \<Rightarrow> case_rec \<Rightarrow> case_rec \<Rightarrow> 'w pstate \<Rightarrow> (exn + unit) \<times> 'w pstate" where
  "check_comment A t_case fs_case s =
     (if comment_list fs_case \<noteq> comment_list t_case then
        (case comment_list t_case of
           [] \<Rightarrow> (Inl IndexError, s)
         | c # _ \<Rightarrow>
             if contains ''googleSupport'' (creator c) then
               gated_notify A (CaseNumber (case_number t_case)) ''comment'' (PStr (body c)) s
             else (Inr (), s))
      else (Inr (), s))"

definition check_priority ::
  "('w, 'raw) adapters \<Rightarrow> case_rec \<Rightarrow> case_rec \<Rightarrow> 'w pstate \<Rightarrow> (exn + unit) \<times> 'w pstate" where
  "check_priority A t_case fs_case s =
     (if priority fs_case \<noteq> priority t_case then
        gated_notify A (CaseNumber (case_number t_case)) ''priority'' (PStr (priority t_case)) s
      else (Inr (), s))"

definition check_escalated ::
  "('w, 'raw) adapters \<Rightarrow> case_rec \<Rightarrow> case_rec \<Rightarrow> 'w pstate \<Rightarrow> (exn + unit) \<times> 'w pstate" where
  "check_escalated A t_case fs_case s =
     (if escalated fs_case \<noteq> escalated t_case then
        (if escalated t_case then
           gated_notify A (WholeCase t_case) ''escalated'' (PBool (escalated t_case)) s
         else
           gated_notify A (CaseNumber (case_number t_case)) ''de-escalated''
             (PBool (escalated t_case)) s)
      else (Inr (), s))"

text \<open>Lines 130 to 133: the write and the first-writer lookup, made only on a new update time.\<close>

definition refresh :: "('w, 'raw) adapters \<Rightarrow> case_rec \<Rightarrow> 'w pstate \<Rightarrow> 'w pstate" where
  "refresh A t_case s =
     (let (g, s1) = do_write A t_case s;
          s2 = s1\<lparr>guid_var := Some g\<rparr>;
          (fd, s3) = do_first_in A (case_number t_case) (update_time t_case) s2
      in s3\<lparr>first_doc_in_var := Some fd\<rparr>)"

text \<open>The body of the inner loop for a snapshot with the live case's number (lines 129 to 150).\<close>

definition update_pair ::
  "('w, 'raw) adapters \<Rightarrow> case_rec \<Rightarrow> case_rec \<Rightarrow> 'w pstate \<Rightarrow> (exn + unit) \<times> 'w pstate" where
  "update_pair A t_case fs_case s =
     (let s1 = (if \<not> update_time t_case = update_time fs_case then refresh A t_case s else s)
      in and_then (check_comment A t_case fs_case s1) (\<lambda>_ s2.
         and_then (check_priority A t_case fs_case s2) (\<lambda>_ s3.
         check_escalated A t_case fs_case s3)))"

text \<open>The inner loop over the snapshots; it returns \<^verbatim>\<open>is_new\<close>.\<close>

fun inner_loop ::
  "('w, 'raw) adapters \<Rightarrow> case_rec \<Rightarrow> case_rec list \<Rightarrow> bool \<Rightarrow> 'w pstate
     \<Rightarrow> (exn + bool) \<times> 'w pstate" where
  "inner_loop A t_case [] is_new s = (Inr is_new, s)"
| "inner_loop A t_case (fs_case # rest) is_new s =
     (if case_number t_case = case_number fs_case then
        and_then (update_pair A t_case fs_case s) (\<lambda>_ s1. inner_loop A t_case rest False s1)
      else inner_loop A t_case rest is_new s)"

subsection \<open>Automatic subscription (lines 166 to 235)\<close>

definition do_tracked_assets ::
  "('w, 'raw) adapters \<Rightarrow> 'w pstate \<Rightarrow> string list \<times> 'w pstate" where
  "do_tracked_assets A s =
     (let (chs, w) = tracked_assets A (world s)
      in (chs, emit TrackedAssets (s\<lparr>world := w\<rparr>)))"

definition do_get_parent ::
  "('w, 'raw) adapters \<Rightarrow> string \<Rightarrow> 'w pstate \<Rightarrow> string \<times> 'w pstate" where
  "do_get_parent A cn s =
     (let (p, w) = get_parent A cn (world s)
      in (p, emit (GetParent cn) (s\<lparr>world := w\<rparr>)))"

definition do_projects_get ::
  "('w, 'raw) adapters \<Rightarrow> string \<Rightarrow> 'w pstate \<Rightarrow> (exn + project) \<times> 'w pstate" where
  "do_projects_get A name s =
     (let (r, w) = projects_get A name (world s)
      in (r, emit (ProjectsGet name) (s\<lparr>world := w\<rparr>)))"

definition do_collection_get ::
  "('w, 'raw) adapters \<Rightarrow> string \<Rightarrow> string \<Rightarrow> 'w pstate \<Rightarrow> asset_item list \<times> 'w pstate" where
  "do_collection_get A channel asset_type s =
     (let (items, w) = collection_get A channel asset_type (world s)
      in (items, emit (CollectionGet channel asset_type) (s\<lparr>world := w\<rparr>)))"

definition do_subscribe ::
  "('w, 'raw) adapters \<Rightarrow> string \<Rightarrow> string \<Rightarrow> string list \<Rightarrow> string \<Rightarrow> 'w pstate
     \<Rightarrow> string list \<times> 'w pstate" where
  "do_subscribe A ch cn cc uid s =
     (let (new_emails, w) = support_subscribe_email A ch cn cc uid (world s)
      in (new_emails, emit (Subscribe ch cn cc uid) (s\<lparr>world := w\<rparr>)))"

definition do_add_comment ::
  "('w, 'raw) adapters \<Rightarrow> string \<Rightarrow> string \<Rightarrow> string \<Rightarrow> string \<Rightarrow> string \<Rightarrow> bool
     \<Rightarrow> 'w pstate \<Rightarrow> 'w pstate" where
  "do_add_comment A ch cn text uid name notify s =
     emit (AddComment ch cn text uid name notify)
       (s\<lparr>world := support_add_comment A ch cn text uid name notify (world s)\<rparr>)"

text \<open>
  \<^verbatim>\<open>tracking_check\<close> subscribes through the first tracked item with the given asset id. The
  organisation id it is given may be \<^verbatim>\<open>None\<close>, which equals no item's id.
\<close>

definition tracking_check ::
  "('w, 'raw) adapters \<Rightarrow> string \<Rightarrow> string \<Rightarrow> string option \<Rightarrow> string \<Rightarrow> 'w pstate
     \<Rightarrow> string list \<times> 'w pstate" where
  "tracking_check A channel asset_type aid case_no s =
     (let (asset, s1) = do_collection_get A channel asset_type s
      in case find (\<lambda>item. Some (asset_id item) = aid) asset of
           Some item \<Rightarrow>
             do_subscribe A (channel_id item) case_no (cc_list item) (user_id item) s1
         | None \<Rightarrow> ([], s1))"

text \<open>
  The folder loop takes element 0 of what \<^verbatim>\<open>tracking_check\<close> returns (\<^verbatim>\<open>IndexError\<close> on the
  empty list) and extends the list with it; extending a list with a string appends its
  characters one by one.
\<close>

fun folder_loop ::
  "('w, 'raw) adapters \<Rightarrow> string \<Rightarrow> string \<Rightarrow> string list \<Rightarrow> string list \<Rightarrow> 'w pstate
     \<Rightarrow> (exn + string list) \<times> 'w pstate" where
  "folder_loop A channel case_no [] folder_new_emails s = (Inr folder_new_emails, s)"
| "folder_loop A channel case_no (folder # rest) folder_new_emails s =
     (let (new_emails, s1) = tracking_check A channel ''folders'' (Some folder) case_no s
      in case new_emails of
           [] \<Rightarrow> (Inl IndexError, s1)
         | e # _ \<Rightarrow>
             folder_loop A channel case_no rest (folder_new_emails @ map (\<lambda>c. [c]) e) s1)"

definition response_text :: "string list \<Rightarrow> string" where
  "response_text combined_new_emails =
     ''The following emails have been added automatically through asset subscription: ''
       @ join '', '' combined_new_emails"

text \<open>The body of the loop over the tracked channels (lines 195 to 222).\<close>

definition channel_step ::
  "('w, 'raw) adapters \<Rightarrow> string option \<Rightarrow> string list \<Rightarrow> string \<Rightarrow> string \<Rightarrow> string
     \<Rightarrow> 'w pstate \<Rightarrow> (exn + unit) \<times> 'w pstate" where
  "channel_step A org_id folders project_id case_no channel s =
     (let (org_new_emails, s1) = tracking_check A channel ''organizations'' org_id case_no s
      in and_then (folder_loop A channel case_no folders [] s1) (\<lambda>folder_new_emails s2.
           (let (project_new_emails, s3) =
                  tracking_check A channel ''projects'' (Some project_id) case_no s2;
                combined_new_emails =
                  [join '', '' org_new_emails, join '', '' folder_new_emails,
                   join '', '' project_new_emails]
            in if combined_new_emails \<noteq> [] then
                 (Inr (), do_add_comment A channel case_no (response_text combined_new_emails)
                            [] ''Auto Asset Subscription'' False s3)
               else (Inr (), s3))))"

fun channel_loop ::
  "('w, 'raw) adapters \<Rightarrow> string option \<Rightarrow> string list \<Rightarrow> string \<Rightarrow> string \<Rightarrow> string list
     \<Rightarrow> 'w pstate \<Rightarrow> (exn + unit) \<times> 'w pstate" where
  "channel_loop A org_id folders project_id case_no [] s = (Inr (), s)"
| "channel_loop A org_id folders project_id case_no (channel # rest) s =
     and_then (channel_step A org_id folders project_id case_no channel s) (\<lambda>_ s1.
       channel_loop A org_id folders project_id case_no rest s1)"

text \<open>
  \<^verbatim>\<open>re.search(...).group()\<close> raises \<^verbatim>\<open>AttributeError\<close> when there is no match. Only
  \<^verbatim>\<open>BrokenPipeError\<close> from the project lookup is caught: it is logged and \<^verbatim>\<open>auto_cc\<close>
  returns.
\<close>

definition auto_cc ::
  "('w, 'raw) adapters \<Rightarrow> case_rec \<Rightarrow> 'w pstate \<Rightarrow> (exn + unit) \<times> 'w pstate" where
  "auto_cc A c s =
     (let (channels, s1) = do_tracked_assets A s;
          case_no = case_number c;
          (case_parent, s2) = do_get_parent A case_no s1
      in case re_search ''projects/'' not_slash case_parent of
           None \<Rightarrow> (Inl AttributeError, s2)
         | Some project_id \<Rightarrow>
             (case do_projects_get A project_id s2 of
                (Inl e, s3) \<Rightarrow>
                  if e = BrokenPipeError then (Inr (), do_log e s3) else (Inl e, s3)
              | (Inr case_project, s3) \<Rightarrow>
                  (case parent case_project of
                     None \<Rightarrow> (Inl KeyError, s3)
                   | Some project_parent \<Rightarrow>
                       (case second_segment project_id of
                          Inl e \<Rightarrow> (Inl e, s3)
                        | Inr project_id' \<Rightarrow>
                            (case (case re_search ''organizations/'' is_digit project_parent of
                                     None \<Rightarrow> Inr None
                                   | Some m \<Rightarrow> map_sum id Some (second_segment m)) of
                               Inl e \<Rightarrow> (Inl e, s3)
                             | Inr org_id \<Rightarrow>
                                 channel_loop A org_id
                                   (re_findall ''folders/'' not_slash project_parent)
                                   project_id' case_no channels s3)))))"

subsection \<open>One live case, and the loop over the live cases (lines 125 to 154)\<close>

definition update_case ::
  "('w, 'raw) adapters \<Rightarrow> case_rec list \<Rightarrow> case_rec \<Rightarrow> 'w pstate \<Rightarrow> (exn + unit) \<times> 'w pstate" where
  "update_case A cases t_case s =
     and_then (inner_loop A t_case cases True s) (\<lambda>is_new s1.
       if is_new then auto_cc A t_case (snd (do_write A t_case s1)) else (Inr (), s1))"

fun update_loop ::
  "('w, 'raw) adapters \<Rightarrow> case_rec list \<Rightarrow> case_rec list \<Rightarrow> 'w pstate
     \<Rightarrow> (exn + unit) \<times> 'w pstate" where
  "update_loop A cases [] s = (Inr (), s)"
| "update_loop A cases (t_case # rest) s =
     and_then (update_case A cases t_case s) (\<lambda>_ s1. update_loop A cases rest s1)"

subsection \<open>One iteration of \<^verbatim>\<open>while True\<close> (lines 72 to 163)\<close>

definition do_get_cases ::
  "('w, 'raw) adapters \<Rightarrow> 'w pstate \<Rightarrow> case_rec list \<times> 'w pstate" where
  "do_get_cases A s =
     (let (cs, w) = get_firestore_cases A (world s)
      in (cs, emit GetCases (s\<lparr>world := w\<rparr>)))"

definition do_search ::
  "('w, 'raw) adapters \<Rightarrow> 'w pstate \<Rightarrow> (exn + 'raw list) \<times> 'w pstate" where
  "do_search A s =
     (let (r, w) = search_cases A (world s)
      in (r, emit Search (s\<lparr>world := w\<rparr>)))"

definition do_parse ::
  "('w, 'raw) adapters \<Rightarrow> 'raw \<Rightarrow> 'w pstate \<Rightarrow> (exn + case_rec) \<times> 'w pstate" where
  "do_parse A raw s =
     (let (r, w) = SupportCase A raw (world s)
      in (r, emit Parse (s\<lparr>world := w\<rparr>)))"

text \<open>\<^verbatim>\<open>except NameError\<close> also catches its subclass \<^verbatim>\<open>UnboundLocalError\<close>.\<close>

definition is_NameError :: "exn \<Rightarrow> bool" where
  "is_NameError e = (e = NameError \<or> e = UnboundLocalError)"

text \<open>
  Lines 88 to 97. The result \<open>None\<close> stands for \<^verbatim>\<open>loop_skip = True\<close>, \<open>Some temp_cases\<close> for
  a payload parsed to the end.
\<close>

fun parse_loop ::
  "('w, 'raw) adapters \<Rightarrow> 'raw list \<Rightarrow> case_rec list \<Rightarrow> 'w pstate
     \<Rightarrow> (exn + case_rec list option) \<times> 'w pstate" where
  "parse_loop A [] temp_cases s = (Inr (Some temp_cases), s)"
| "parse_loop A (raw # rest) temp_cases s =
     (case do_parse A raw s of
        (Inl e, s1) \<Rightarrow> if is_NameError e then (Inr None, do_log e s1) else (Inl e, s1)
      | (Inr c, s1) \<Rightarrow> parse_loop A rest (temp_cases @ [c]) s1)"

datatype ctl = Continue | Break

definition cycle ::
  "('w, 'raw) adapters \<Rightarrow> bool \<Rightarrow> 'w pstate \<Rightarrow> (exn + ctl) \<times> 'w pstate" where
  "cycle A is_test s =
     (let s0 = s\<lparr>closed_cases := []\<rparr>;
          (cases, s1) = do_get_cases A s0
      in case do_search A s1 of
           (Inl e, s2) \<Rightarrow>
             if e = BrokenPipeError then (Inr Continue, do_sleep A 5 (do_log e s2))
             else (Inl e, s2)
         | (Inr resp, s2) \<Rightarrow>
             (case parse_loop A resp [] s2 of
                (Inl e, s3) \<Rightarrow> (Inl e, s3)
              | (Inr None, s3) \<Rightarrow> (Inr Continue, do_sleep A 5 s3)
              | (Inr (Some temp_cases), s3) \<Rightarrow>
                  (let (cases', s4) = closure_loop A temp_cases cases s3
                   in case update_loop A cases' temp_cases s4 of
                        (Inl e, s5) \<Rightarrow> (Inl e, s5)
                      | (Inr _, s5) \<Rightarrow>
                          (let s6 = do_sleep A 10 s5;
                               s7 = fold (do_delete A) (closed_cases s6) s6
                           in (Inr (if is_test then Break else Continue), s7)))))"

text \<open>
  \<^verbatim>\<open>while True\<close> with a bound on the number of iterations: \<open>None\<close> when the bound is reached
  with the loop still running, \<open>Some (Inl e)\<close> when an exception leaves the loop, and
  \<open>Some (Inr ())\<close> when the loop is left by \<^verbatim>\<open>break\<close>. The set-up before the loop (discovery
  document, Firebase initialisation) is not modelled.
\<close>

fun case_updates ::
  "nat \<Rightarrow> ('w, 'raw) adapters \<Rightarrow> bool \<Rightarrow> 'w pstate \<Rightarrow> (exn + unit) option \<times> 'w pstate" where
  "case_updates 0 A is_test s = (None, s)"
| "case_updates (Suc n) A is_test s =
     (case cycle A is_test s of
        (Inl e, s') \<Rightarrow> (Some (Inl e), s')
      | (Inr Break, s') \<Rightarrow> (Some (Inr ()), s')
      | (Inr Continue, s') \<Rightarrow> case_updates n A is_test s')"

subsection \<open>A reference world for concrete runs\<close>

text \<open>
  Modelled from the spec: the collaborators are defined in other modules. The store keeps
  one snapshot per case number; a write overwrites the snapshot, returns a fresh guid and
  records it as first writer of (case number, update time) unless a first writer is already
  recorded; a delete removes the snapshot. Entries of \<open>sw_firsts\<close> present at the start stand
  for writes made earlier by another process. A raw record of the payload is the result
  that \<^verbatim>\<open>SupportCase\<close> gives for it. Nobody is subscribed yet, so every address of a
  \<^verbatim>\<open>cc_list\<close> is newly added.
\<close>

record sim_world =
  sw_docs :: "case_rec list"
  sw_firsts :: "((string \<times> string) \<times> guid) list"
  sw_next :: nat
  sw_live :: "(exn + case_rec) list"
  sw_parent :: string
  sw_project :: "exn + project"
  sw_channels :: "string list"
  sw_items :: "((string \<times> string) \<times> asset_item list) list"

definition guid_of :: "nat \<Rightarrow> guid" where
  "guid_of n = replicate (Suc n) (CHR ''g'')"

definition sim_write :: "case_rec \<Rightarrow> sim_world \<Rightarrow> guid \<times> sim_world" where
  "sim_write c w =
     (let g = guid_of (sw_next w);
          key = (case_number c, update_time c)
      in (g, w\<lparr>sw_docs := filter (\<lambda>d. case_number d \<noteq> case_number c) (sw_docs w) @ [c],
               sw_firsts := (case map_of (sw_firsts w) key of
                               None \<Rightarrow> sw_firsts w @ [(key, g)]
                             | Some _ \<Rightarrow> sw_firsts w),
               sw_next := Suc (sw_next w)\<rparr>))"

definition sim_first_in :: "string \<Rightarrow> string \<Rightarrow> sim_world \<Rightarrow> first_doc option \<times> sim_world" where
  "sim_first_in cn ut w =
     (map_option (\<lambda>g. \<lparr>fd_guid = g\<rparr>) (map_of (sw_firsts w) (cn, ut)), w)"

definition sim_delete :: "string \<Rightarrow> sim_world \<Rightarrow> sim_world" where
  "sim_delete cn w = w\<lparr>sw_docs := filter (\<lambda>d. case_number d \<noteq> cn) (sw_docs w)\<rparr>"

definition sim_collection_get ::
  "string \<Rightarrow> string \<Rightarrow> sim_world \<Rightarrow> asset_item list \<times> sim_world" where
  "sim_collection_get ch ty w =
     (case map_of (sw_items w) (ch, ty) of None \<Rightarrow> ([], w) | Some items \<Rightarrow> (items, w))"

definition sim :: "(sim_world, exn + case_rec) adapters" where
  "sim =
     \<lparr>get_firestore_cases = (\<lambda>w. (sw_docs w, w)),
      search_cases = (\<lambda>w. (Inr (sw_live w), w)),
      SupportCase = (\<lambda>raw w. (raw, w)),
      firestore_write = sim_write,
      get_firestore_first_in = sim_first_in,
      firestore_delete_cases = sim_delete,
      notify_slack = (\<lambda>sub kind pl w. w),
      sleep = (\<lambda>n w. w),
      tracked_assets = (\<lambda>w. (sw_channels w, w)),
      get_parent = (\<lambda>cn w. (sw_parent w, w)),
      projects_get = (\<lambda>name w. (sw_project w, w)),
      collection_get = sim_collection_get,
      support_subscribe_email = (\<lambda>ch cn cc uid w. (cc, w)),
      support_add_comment = (\<lambda>ch cn text uid name notify w. w)\<rparr>"

text \<open>A process that has just entered \<^verbatim>\<open>case_updates\<close>: nothing called, no local bound.\<close>

definition start :: "'w \<Rightarrow> 'w pstate" where
  "start w = \<lparr>world = w, trace = [], guid_var = None, first_doc_in_var = None,
              closed_cases = []\<rparr>"

definition mk_case :: "string \<Rightarrow> string \<Rightarrow> comment list \<Rightarrow> string \<Rightarrow> bool \<Rightarrow> case_rec" where
  "mk_case cn ut cl pr esc =
     \<lparr>case_number = cn, update_time = ut, comment_list = cl, priority = pr, escalated = esc\<rparr>"

definition mk_world :: "case_rec list \<Rightarrow> (exn + case_rec) list \<Rightarrow> sim_world" where
  "mk_world docs live =
     \<lparr>sw_docs = docs, sw_firsts = [], sw_next = 0, sw_live = live,
      sw_parent = ''projects/p1/cases/1'',
      sw_project = Inr \<lparr>parent = Some ''organizations/123''\<rparr>,
      sw_channels = [''CH1''], sw_items = []\<rparr>"

subsection \<open>Predicates on the trace\<close>

text \<open>
  \<open>extends P s s'\<close>: the state \<open>s'\<close> was reached from \<open>s\<close> by calls that all satisfy \<open>P\<close>,
  with \<^verbatim>\<open>closed_cases\<close> untouched.
\<close>

definition extends :: "(effect \<Rightarrow> bool) \<Rightarrow> 'w pstate \<Rightarrow> 'w pstate \<Rightarrow> bool" where
  "extends P s s' =
     (closed_cases s' = closed_cases s \<and> (\<exists>es. trace s' = trace s @ es \<and> list_all P es))"

text \<open>A snapshot that closure detection marks: not yet marked, and absent from the live set.\<close>

definition unmarked_absent :: "case_rec list \<Rightarrow> case_rec \<Rightarrow> bool" where
  "unmarked_absent temp_cases fs_case =
     (update_time fs_case \<noteq> sentinel
      \<and> \<not> list_ex (\<lambda>t_case. case_number t_case = case_number fs_case) temp_cases)"

text \<open>The calls that closure detection makes for a snapshot it marks.\<close>

definition closure_effect :: "case_rec \<Rightarrow> effect \<Rightarrow> bool" where
  "closure_effect fs_case e =
     (case e of
        Write c g \<Rightarrow> c = fs_case\<lparr>update_time := sentinel\<rparr>
      | FirstIn cn ut fd \<Rightarrow> cn = case_number fs_case \<and> ut = sentinel
      | Notify sub kind pl \<Rightarrow>
          sub = CaseNumber (case_number fs_case) \<and> kind = ''closed'' \<and> pl = PStr []
      | _ \<Rightarrow> False)"

text \<open>The calls that lines 130 to 150 can make for a live case and a snapshot of it.\<close>

definition pair_effect :: "case_rec \<Rightarrow> case_rec \<Rightarrow> effect \<Rightarrow> bool" where
  "pair_effect t_case fs_case e =
     (case e of
        Write c g \<Rightarrow> c = t_case \<and> update_time t_case \<noteq> update_time fs_case
      | FirstIn cn ut fd \<Rightarrow>
          cn = case_number t_case \<and> ut = update_time t_case
          \<and> update_time t_case \<noteq> update_time fs_case
      | Notify sub kind pl \<Rightarrow>
          (kind = ''comment'' \<and> sub = CaseNumber (case_number t_case)
             \<and> comment_list fs_case \<noteq> comment_list t_case
             \<and> (case comment_list t_case of
                   [] \<Rightarrow> False
                 | c # _ \<Rightarrow> contains ''googleSupport'' (creator c) \<and> pl = PStr (body c)))
          \<or> (kind = ''priority'' \<and> sub = CaseNumber (case_number t_case)
             \<and> priority fs_case \<noteq> priority t_case \<and> pl = PStr (priority t_case))
          \<or> (kind = ''escalated'' \<and> sub = WholeCase t_case
             \<and> escalated fs_case \<noteq> escalated t_case \<and> escalated t_case
             \<and> pl = PBool (escalated t_case))
          \<or> (kind = ''de-escalated'' \<and> sub = CaseNumber (case_number t_case)
             \<and> escalated fs_case \<noteq> escalated t_case \<and> \<not> escalated t_case
             \<and> pl = PBool (escalated t_case))
      | _ \<Rightarrow> False)"

text \<open>The calls of lines 153 and 154 for a new live case.\<close>

definition subscription_effect :: "effect \<Rightarrow> bool" where
  "subscription_effect e =
     (case e of
        TrackedAssets \<Rightarrow> True
      | GetParent cn \<Rightarrow> True
      | ProjectsGet name \<Rightarrow> True
      | CollectionGet ch ty \<Rightarrow> True
      | Subscribe ch cn cc uid \<Rightarrow> True
      | AddComment ch cn text uid name notify \<Rightarrow> True
      | LogError x \<Rightarrow> True
      | _ \<Rightarrow> False)"

definition new_case_effect :: "case_rec \<Rightarrow> effect \<Rightarrow> bool" where
  "new_case_effect t_case e =
     (case e of Write c g \<Rightarrow> c = t_case | _ \<Rightarrow> subscription_effect e)"

definition update_effect :: "case_rec list \<Rightarrow> case_rec list \<Rightarrow> effect \<Rightarrow> bool" where
  "update_effect cases temp_cases e =
     list_ex (\<lambda>t_case.
        new_case_effect t_case e
        \<or> list_ex (\<lambda>fs_case. case_number t_case = case_number fs_case
                              \<and> pair_effect t_case fs_case e) cases) temp_cases"

definition is_Delete :: "effect \<Rightarrow> bool" where
  "is_Delete e = (case e of Delete cn \<Rightarrow> True | _ \<Rightarrow> False)"

definition is_Notify :: "effect \<Rightarrow> bool" where
  "is_Notify e = (case e of Notify sub kind pl \<Rightarrow> True | _ \<Rightarrow> False)"

text \<open>
  \<open>gated P s s'\<close>: from \<open>s\<close> to \<open>s'\<close> only notifications satisfying \<open>P\<close> were sent, the
  variables \<^verbatim>\<open>guid\<close> and \<^verbatim>\<open>first_doc_in\<close> kept their values, and a notification was sent
  only if the test \<^verbatim>\<open>guid == first_doc_in["guid"]\<close> held in \<open>s\<close>.
\<close>

definition gated :: "(effect \<Rightarrow> bool) \<Rightarrow> 'w pstate \<Rightarrow> 'w pstate \<Rightarrow> bool" where
  "gated P s s' =
     (guid_var s' = guid_var s \<and> first_doc_in_var s' = first_doc_in_var s
      \<and> closed_cases s' = closed_cases s
      \<and> (\<exists>es. trace s' = trace s @ es \<and> list_all (\<lambda>e. is_Notify e \<and> P e) es
               \<and> (es \<noteq> [] \<longrightarrow> gate s = Inr True)))"

section \<open>Properties\<close>

subsection \<open>Auxiliary facts about traces\<close>

lemma extends_refl: "extends P s s"
  by (simp add: extends_def)

lemma extends_trans: "extends P s s1 \<Longrightarrow> extends P s1 s2 \<Longrightarrow> extends P s s2"
  by (auto simp: extends_def)

lemma extends_mono: "extends P s s' \<Longrightarrow> (\<And>e. P e \<Longrightarrow> Q e) \<Longrightarrow> extends Q s s'"
  by (auto simp: extends_def list_all_iff)

lemma closure_step_cases:
  assumes "closure_step A temp fs s = (fs', s')"
  shows "(\<not> unmarked_absent temp fs \<and> fs' = fs \<and> s' = s)
       \<or> (unmarked_absent temp fs \<and> fs' = fs\<lparr>update_time := sentinel\<rparr>
          \<and> (\<exists>g w1 fd w2.
                firestore_write A fs' (world s) = (g, w1)
              \<and> get_firestore_first_in A (case_number fs) sentinel w1 = (fd, w2)
              \<and> trace s' = trace s @ [Write fs' g, FirstIn (case_number fs) sentinel fd]
                    @ (if \<exists>d. fd = Some d \<and> g = fd_guid d
                       then [Notify (CaseNumber (case_number fs)) ''closed'' (PStr [])] else [])
              \<and> closed_cases s' = closed_cases s
                    @ (if \<exists>d. fd = Some d \<and> g = fd_guid d then [case_number fs] else [])))"
  using assms
  by (auto simp: closure_step_def unmarked_absent_def do_write_def do_first_in_def do_notify_def
        emit_def Let_def split: prod.splits option.splits if_splits)


lemma closure_step_effects:
  assumes "closure_step A temp fs s = (fs', s')"
  shows "\<exists>es q. trace s' = trace s @ es \<and> closed_cases s' = closed_cases s @ q
           \<and> (es \<noteq> [] \<longrightarrow> unmarked_absent temp fs)
           \<and> (\<forall>e\<in>set es. closure_effect fs e)
           \<and> (\<forall>c\<in>set q. c = case_number fs
                  \<and> (\<exists>g. Write (fs\<lparr>update_time := sentinel\<rparr>) g \<in> set es))"
  using closure_step_cases [OF assms]
  by (auto simp: closure_effect_def)

lemma closure_loop_effects:
  "closure_loop A temp cases s = (cases', s') \<Longrightarrow>
     \<exists>es q. trace s' = trace s @ es \<and> closed_cases s' = closed_cases s @ q
       \<and> (\<forall>e\<in>set es. \<exists>fs\<in>set cases. unmarked_absent temp fs \<and> closure_effect fs e)
       \<and> (\<forall>c\<in>set q. \<exists>fs\<in>set cases. unmarked_absent temp fs \<and> c = case_number fs
              \<and> (\<exists>g. Write (fs\<lparr>update_time := sentinel\<rparr>) g \<in> set es))"
proof (induction cases arbitrary: s cases' s')
  case Nil
  then show ?case by simp
next
  case (Cons fs rest)
  obtain fs1 s1 where step: "closure_step A temp fs s = (fs1, s1)"
    by (cases "closure_step A temp fs s")
  obtain rest1 s2 where loop: "closure_loop A temp rest s1 = (rest1, s2)"
    by (cases "closure_loop A temp rest s1")
  from Cons.prems step loop have s': "s' = s2" by simp
  from closure_step_effects [OF step] obtain es1 q1 where
    st: "trace s1 = trace s @ es1" "closed_cases s1 = closed_cases s @ q1"
       "es1 \<noteq> [] \<longrightarrow> unmarked_absent temp fs"
       "\<forall>e\<in>set es1. closure_effect fs e"
       "\<forall>c\<in>set q1. c = case_number fs
           \<and> (\<exists>g. Write (fs\<lparr>update_time := sentinel\<rparr>) g \<in> set es1)"
    by blast
  from Cons.IH [OF loop] obtain es2 q2 where
    lp: "trace s2 = trace s1 @ es2" "closed_cases s2 = closed_cases s1 @ q2"
       "\<forall>e\<in>set es2. \<exists>fs\<in>set rest. unmarked_absent temp fs \<and> closure_effect fs e"
       "\<forall>c\<in>set q2. \<exists>fs\<in>set rest. unmarked_absent temp fs \<and> c = case_number fs
           \<and> (\<exists>g. Write (fs\<lparr>update_time := sentinel\<rparr>) g \<in> set es2)"
    by blast
  have a: "trace s' = trace s @ (es1 @ es2)" using st(1) lp(1) s' by simp
  have b: "closed_cases s' = closed_cases s @ (q1 @ q2)" using st(2) lp(2) s' by simp
  have c: "\<forall>e\<in>set (es1 @ es2). \<exists>fs'\<in>set (fs # rest). unmarked_absent temp fs' \<and> closure_effect fs' e"
  proof
    fix e assume "e \<in> set (es1 @ es2)"
    then consider "e \<in> set es1" | "e \<in> set es2" by auto
    then show "\<exists>fs'\<in>set (fs # rest). unmarked_absent temp fs' \<and> closure_effect fs' e"
    proof cases
      case 1
      with \<open>es1 \<noteq> [] \<longrightarrow> unmarked_absent temp fs\<close> \<open>\<forall>e\<in>set es1. closure_effect fs e\<close>
      show ?thesis by auto
    next
      case 2
      with \<open>\<forall>e\<in>set es2. \<exists>fs\<in>set rest. unmarked_absent temp fs \<and> closure_effect fs e\<close>
      show ?thesis by auto
    qed
  qed
  have d: "\<forall>c\<in>set (q1 @ q2). \<exists>fs'\<in>set (fs # rest). unmarked_absent temp fs' \<and> c = case_number fs'
              \<and> (\<exists>g. Write (fs'\<lparr>update_time := sentinel\<rparr>) g \<in> set (es1 @ es2))"
  proof
    fix c assume "c \<in> set (q1 @ q2)"
    then consider "c \<in> set q1" | "c \<in> set q2" by auto
    then show "\<exists>fs'\<in>set (fs # rest). unmarked_absent temp fs' \<and> c = case_number fs'
              \<and> (\<exists>g. Write (fs'\<lparr>update_time := sentinel\<rparr>) g \<in> set (es1 @ es2))"
    proof cases
      case 1
      with st(5) have "c = case_number fs"
        and w: "\<exists>g. Write (fs\<lparr>update_time := sentinel\<rparr>) g \<in> set es1" by auto
      from w have "es1 \<noteq> []" by auto
      with st(3) have "unmarked_absent temp fs" by simp
      with \<open>c = case_number fs\<close> w show ?thesis by auto
    next
      case 2
      with lp(4) obtain fs' where "fs' \<in> set rest" "unmarked_absent temp fs'" "c = case_number fs'"
        "\<exists>g. Write (fs'\<lparr>update_time := sentinel\<rparr>) g \<in> set es2" by blast
      then show ?thesis by auto
    qed
  qed
  show ?case
    by (rule exI [of _ "es1 @ es2"], rule exI [of _ "q1 @ q2"]) (intro conjI a b c d)
qed

subsection \<open>Marked snapshots are skipped\<close>

text \<open>
  Claim C10. Once the snapshots of a case number \<open>c\<close> carry the sentinel update time,
  closure detection skips them: whatever the live set is, the loop over the snapshots makes
  no write for \<open>c\<close>, sends no notification for \<open>c\<close> and does not add \<open>c\<close> to
  \<^verbatim>\<open>closed_cases\<close>.
\<close>

theorem closure_skips_marked:
  assumes "\<forall>fs\<in>set cases. case_number fs = c \<longrightarrow> update_time fs = sentinel"
      and "closure_loop A temp_cases cases s = (cases', s')"
  shows "\<exists>es q. trace s' = trace s @ es \<and> closed_cases s' = closed_cases s @ q
           \<and> (\<forall>fs g. case_number fs = c \<longrightarrow> Write fs g \<notin> set es)
           \<and> (\<forall>kind pl. Notify (CaseNumber c) kind pl \<notin> set es)
           \<and> c \<notin> set q"
proof -
  from closure_loop_effects [OF assms(2)] obtain es q where
    ef: "trace s' = trace s @ es" "closed_cases s' = closed_cases s @ q"
       "\<forall>e\<in>set es. \<exists>fs\<in>set cases. unmarked_absent temp_cases fs \<and> closure_effect fs e"
       "\<forall>c\<in>set q. \<exists>fs\<in>set cases. unmarked_absent temp_cases fs \<and> c = case_number fs
           \<and> (\<exists>g. Write (fs\<lparr>update_time := sentinel\<rparr>) g \<in> set es)"
    by blast
  have nomark: "\<And>fs. fs \<in> set cases \<Longrightarrow> unmarked_absent temp_cases fs \<Longrightarrow> case_number fs \<noteq> c"
    using assms(1) by (auto simp: unmarked_absent_def)
  have w: "\<forall>fs g. case_number fs = c \<longrightarrow> Write fs g \<notin> set es"
  proof (intro allI impI notI)
    fix fs g assume "case_number fs = c" "Write fs g \<in> set es"
    with ef(3) obtain fs0 where "fs0 \<in> set cases" "unmarked_absent temp_cases fs0"
      "closure_effect fs0 (Write fs g)" by blast
    then have "fs = fs0\<lparr>update_time := sentinel\<rparr>" by (simp add: closure_effect_def)
    with \<open>case_number fs = c\<close> have "case_number fs0 = c" by simp
    with nomark \<open>fs0 \<in> set cases\<close> \<open>unmarked_absent temp_cases fs0\<close> show False by blast
  qed
  have n: "\<forall>kind pl. Notify (CaseNumber c) kind pl \<notin> set es"
  proof (intro allI notI)
    fix kind pl assume "Notify (CaseNumber c) kind pl \<in> set es"
    with ef(3) obtain fs0 where "fs0 \<in> set cases" "unmarked_absent temp_cases fs0"
      "closure_effect fs0 (Notify (CaseNumber c) kind pl)" by blast
    then have "case_number fs0 = c" by (simp add: closure_effect_def)
    with nomark \<open>fs0 \<in> set cases\<close> \<open>unmarked_absent temp_cases fs0\<close> show False by blast
  qed
  have q: "c \<notin> set q"
  proof
    assume "c \<in> set q"
    with ef(4) obtain fs0 where in0: "fs0 \<in> set cases" and ua0: "unmarked_absent temp_cases fs0"
      and c0: "c = case_number fs0" by blast
    from nomark [OF in0 ua0] c0 show False by simp
  qed
  show ?thesis
    by (rule exI [of _ es], rule exI [of _ q]) (intro conjI ef(1,2) w n q)
qed


theorem closure_skips_marked_witness:
  "\<exists>es q. trace (snd (closure_loop sim [] [mk_case ''A'' sentinel [] ''P2'' False]
                     (start (mk_world [mk_case ''A'' sentinel [] ''P2'' False] []))))
             = trace (start (mk_world [mk_case ''A'' sentinel [] ''P2'' False] [])) @ es
         \<and> closed_cases (snd (closure_loop sim [] [mk_case ''A'' sentinel [] ''P2'' False]
                     (start (mk_world [mk_case ''A'' sentinel [] ''P2'' False] []))))
             = closed_cases (start (mk_world [mk_case ''A'' sentinel [] ''P2'' False] [])) @ q
         \<and> (\<forall>fs g. case_number fs = ''A'' \<longrightarrow> Write fs g \<notin> set es)
         \<and> (\<forall>kind pl. Notify (CaseNumber ''A'') kind pl \<notin> set es)
         \<and> ''A'' \<notin> set q"
proof -
  have h: "\<forall>fs\<in>set [mk_case ''A'' sentinel [] ''P2'' False].
             case_number fs = ''A'' \<longrightarrow> update_time fs = sentinel"
    by (simp add: mk_case_def)
  show ?thesis
    by (rule closure_skips_marked [OF h prod.collapse [symmetric]])
qed

subsection \<open>Queueing a closed case for deletion\<close>

text \<open>
  Claim C5, as amended. A snapshot that closure detection marks is written with the sentinel
  and the first writer of (case number, sentinel) is looked up. The case number is appended
  to \<^verbatim>\<open>closed_cases\<close>, the list deleted after the sleep, exactly when a first-writer record
  is found and its guid is the guid this write returned: the test that gates the
  \<^verbatim>\<open>closed\<close> notification gates the queueing as well.
\<close>

theorem closure_queue_gated:
  assumes "update_time fs \<noteq> sentinel"
      and "\<not> list_ex (\<lambda>t. case_number t = case_number fs) temp_cases"
      and "firestore_write A (fs\<lparr>update_time := sentinel\<rparr>) (world s) = (g, w1)"
      and "get_firestore_first_in A (case_number fs) sentinel w1 = (fd, w2)"
  shows "closed_cases (snd (closure_step A temp_cases fs s))
           = closed_cases s @ (if \<exists>d. fd = Some d \<and> g = fd_guid d then [case_number fs] else [])
       \<and> trace (snd (closure_step A temp_cases fs s))
           = trace s @ [Write (fs\<lparr>update_time := sentinel\<rparr>) g,
                        FirstIn (case_number fs) sentinel fd]
               @ (if \<exists>d. fd = Some d \<and> g = fd_guid d
                  then [Notify (CaseNumber (case_number fs)) ''closed'' (PStr [])] else [])"
  using assms
  by (auto simp: closure_step_def do_write_def do_first_in_def do_notify_def emit_def Let_def
        split: option.splits)

theorem closure_queue_gated_witness:
  "closed_cases (snd (closure_step sim [] (mk_case ''A'' ''T0'' [] ''P2'' False)
                       (start (mk_world [mk_case ''A'' ''T0'' [] ''P2'' False] []))))
     = [''A'']
   \<and> trace (snd (closure_step sim [] (mk_case ''A'' ''T0'' [] ''P2'' False)
                       (start (mk_world [mk_case ''A'' ''T0'' [] ''P2'' False] []))))
     = [Write (mk_case ''A'' sentinel [] ''P2'' False) ''g'',
        FirstIn ''A'' sentinel (Some \<lparr>fd_guid = ''g''\<rparr>),
        Notify (CaseNumber ''A'') ''closed'' (PStr [])]"
proof -
  let ?fs = "mk_case ''A'' ''T0'' [] ''P2'' False"
  let ?s = "start (mk_world [?fs] [])"
  let ?w = "firestore_write sim (?fs\<lparr>update_time := sentinel\<rparr>) (world ?s)"
  let ?r = "get_firestore_first_in sim (case_number ?fs) sentinel (snd ?w)"
  have h1: "update_time ?fs \<noteq> sentinel" by (simp add: mk_case_def sentinel_def)
  have h2: "\<not> list_ex (\<lambda>t. case_number t = case_number ?fs) []" by simp
  have h3: "?w = (fst ?w, snd ?w)" by simp
  have h4: "?r = (fst ?r, snd ?r)" by simp
  have g: "fst ?w = ''g''"
    by (simp add: sim_def sim_write_def guid_of_def start_def mk_world_def Let_def)
  have fd: "fst ?r = Some \<lparr>fd_guid = ''g''\<rparr>"
    by (simp add: sim_def sim_write_def sim_first_in_def guid_of_def start_def mk_world_def
          mk_case_def Let_def)
  show ?thesis
    using closure_queue_gated [OF h1 h2 h3 h4] g fd
    by (simp add: mk_case_def start_def)
qed

text \<open>
  The claim as stated fails: a process that marks the snapshot of case A but is not the
  first writer of the mark queues nothing, so the cycle ends with no delete and the marked
  snapshot still in the store.
\<close>

theorem closure_loser_not_queued:
  "trace (snd (cycle sim True
         (start ((mk_world [mk_case ''A'' ''T0'' [] ''P2'' False] [])
                   \<lparr>sw_firsts := [((''A'', sentinel), ''other'')]\<rparr>))))
     = [GetCases, Search,
        Write (mk_case ''A'' sentinel [] ''P2'' False) ''g'',
        FirstIn ''A'' sentinel (Some \<lparr>fd_guid = ''other''\<rparr>),
        Sleep 10]
   \<and> closed_cases (snd (cycle sim True
         (start ((mk_world [mk_case ''A'' ''T0'' [] ''P2'' False] [])
                   \<lparr>sw_firsts := [((''A'', sentinel), ''other'')]\<rparr>)))) = []
   \<and> sw_docs (world (snd (cycle sim True
         (start ((mk_world [mk_case ''A'' ''T0'' [] ''P2'' False] [])
                   \<lparr>sw_firsts := [((''A'', sentinel), ''other'')]\<rparr>)))))
     = [mk_case ''A'' sentinel [] ''P2'' False]"
  by code_simp

subsection \<open>Auxiliary facts about update detection\<close>

lemma gate_cong:
  "guid_var s' = guid_var s \<Longrightarrow> first_doc_in_var s' = first_doc_in_var s \<Longrightarrow> gate s' = gate s"
  by (simp add: gate_def split: option.splits)

lemma gated_refl: "gated P s s"
  by (simp add: gated_def)

lemma gated_trans:
  assumes "gated P s s1" and "gated P s1 s2"
  shows "gated P s s2"
proof -
  from assms(1) obtain es1 where 1: "guid_var s1 = guid_var s"
    "first_doc_in_var s1 = first_doc_in_var s" "closed_cases s1 = closed_cases s"
    "trace s1 = trace s @ es1" "list_all (\<lambda>e. is_Notify e \<and> P e) es1"
    "es1 \<noteq> [] \<longrightarrow> gate s = Inr True"
    unfolding gated_def by blast
  from assms(2) obtain es2 where 2: "guid_var s2 = guid_var s1"
    "first_doc_in_var s2 = first_doc_in_var s1" "closed_cases s2 = closed_cases s1"
    "trace s2 = trace s1 @ es2" "list_all (\<lambda>e. is_Notify e \<and> P e) es2"
    "es2 \<noteq> [] \<longrightarrow> gate s1 = Inr True"
    unfolding gated_def by blast
  have g: "gate s1 = gate s" using 1(1,2) by (rule gate_cong)
  have "trace s2 = trace s @ (es1 @ es2)" using 1(4) 2(4) by simp
  moreover have "list_all (\<lambda>e. is_Notify e \<and> P e) (es1 @ es2)" using 1(5) 2(5) by simp
  moreover have "es1 @ es2 \<noteq> [] \<longrightarrow> gate s = Inr True" using 1(6) 2(6) g by auto
  ultimately show ?thesis
    unfolding gated_def using 1(1,2,3) 2(1,2,3) by (intro conjI exI [of _ "es1 @ es2"]) simp_all
qed

lemma gated_notify_gated:
  assumes "gated_notify A sub kind pl s = (r, s')" and "P (Notify sub kind pl)"
  shows "gated P s s'"
  using assms
  by (auto simp: gated_notify_def gated_def do_notify_def emit_def is_Notify_def
        split: sum.splits if_splits)

lemma check_comment_gated:
  "check_comment A t fs s = (r, s') \<Longrightarrow> gated (pair_effect t fs) s s'"
  by (auto simp: check_comment_def pair_effect_def gated_refl
        split: if_splits list.splits intro!: gated_notify_gated)

lemma check_priority_gated:
  "check_priority A t fs s = (r, s') \<Longrightarrow> gated (pair_effect t fs) s s'"
  by (auto simp: check_priority_def pair_effect_def gated_refl
        split: if_splits intro!: gated_notify_gated)

lemma check_escalated_gated:
  "check_escalated A t fs s = (r, s') \<Longrightarrow> gated (pair_effect t fs) s s'"
  by (auto simp: check_escalated_def pair_effect_def gated_refl
        split: if_splits intro!: gated_notify_gated)

lemma and_then_cases:
  assumes "and_then m f = (r, s')"
  obtains e where "m = (Inl e, s')" "r = Inl e"
        | a s1 where "m = (Inr a, s1)" "f a s1 = (r, s')"
  using assms by (auto simp: and_then_def split: prod.splits sum.splits)

lemma checks_gated:
  assumes "and_then (check_comment A t fs s1) (\<lambda>_ s2.
             and_then (check_priority A t fs s2) (\<lambda>_ s3.
               check_escalated A t fs s3)) = (r, s')"
  shows "gated (pair_effect t fs) s1 s'"
proof (rule and_then_cases [OF assms])
  fix e assume "check_comment A t fs s1 = (Inl e, s')"
  then show ?thesis by (rule check_comment_gated)
next
  fix a s2
  assume c: "check_comment A t fs s1 = (Inr a, s2)"
    and rest: "and_then (check_priority A t fs s2) (\<lambda>_ s3. check_escalated A t fs s3) = (r, s')"
  have g1: "gated (pair_effect t fs) s1 s2" using c by (rule check_comment_gated)
  show ?thesis
  proof (rule and_then_cases [OF rest])
    fix e assume "check_priority A t fs s2 = (Inl e, s')"
    then have "gated (pair_effect t fs) s2 s'" by (rule check_priority_gated)
    with g1 show ?thesis by (rule gated_trans)
  next
    fix b s3
    assume p: "check_priority A t fs s2 = (Inr b, s3)"
      and e: "check_escalated A t fs s3 = (r, s')"
    have "gated (pair_effect t fs) s2 s3" using p by (rule check_priority_gated)
    moreover have "gated (pair_effect t fs) s3 s'" using e by (rule check_escalated_gated)
    ultimately show ?thesis using g1 by (blast intro: gated_trans)
  qed
qed


lemma gated_extends: "gated P s s' \<Longrightarrow> extends P s s'"
  by (auto simp: gated_def extends_def list_all_iff)

lemma refresh_eq:
  assumes "firestore_write A t (world s) = (g, w1)"
      and "get_firestore_first_in A (case_number t) (update_time t) w1 = (fd, w2)"
  shows "trace (refresh A t s) = trace s @ [Write t g, FirstIn (case_number t) (update_time t) fd]"
    and "guid_var (refresh A t s) = Some g"
    and "first_doc_in_var (refresh A t s) = Some fd"
    and "closed_cases (refresh A t s) = closed_cases s"
  using assms
  by (simp_all add: refresh_def do_write_def do_first_in_def emit_def Let_def)

lemma update_pair_stale:
  assumes "update_time t = update_time fs" and "update_pair A t fs s = (r, s')"
  shows "gated (pair_effect t fs) s s'"
  using assms by (auto simp: update_pair_def intro: checks_gated)

lemma update_pair_fresh:
  assumes ne: "update_time t \<noteq> update_time fs"
      and w: "firestore_write A t (world s) = (g, w1)"
      and f: "get_firestore_first_in A (case_number t) (update_time t) w1 = (fd, w2)"
      and up: "update_pair A t fs s = (r, s')"
  shows "\<exists>es. trace s' = trace s @ Write t g # FirstIn (case_number t) (update_time t) fd # es
           \<and> list_all (\<lambda>e. is_Notify e \<and> pair_effect t fs e) es
           \<and> (es \<noteq> [] \<longrightarrow> (\<exists>d. fd = Some d \<and> fd_guid d = g))
           \<and> closed_cases s' = closed_cases s"
proof -
  let ?s1 = "refresh A t s"
  from up ne have "gated (pair_effect t fs) ?s1 s'"
    by (auto simp: update_pair_def intro: checks_gated)
  then obtain es where es: "closed_cases s' = closed_cases ?s1" "trace s' = trace ?s1 @ es"
    "list_all (\<lambda>e. is_Notify e \<and> pair_effect t fs e) es" "es \<noteq> [] \<longrightarrow> gate ?s1 = Inr True"
    unfolding gated_def by blast
  have gt: "gate ?s1 = (case fd of None \<Rightarrow> Inl TypeError | Some d \<Rightarrow> Inr (g = fd_guid d))"
    by (simp add: gate_def refresh_eq [OF w f])
  have a: "trace s' = trace s @ Write t g # FirstIn (case_number t) (update_time t) fd # es"
    using es(2) refresh_eq(1) [OF w f] by simp
  have b: "es \<noteq> [] \<longrightarrow> (\<exists>d. fd = Some d \<and> fd_guid d = g)"
    using es(4) gt by (auto split: option.splits)
  have c: "closed_cases s' = closed_cases s" using es(1) refresh_eq(4) [OF w f] by simp
  show ?thesis by (rule exI [of _ es]) (intro conjI a es(3) b c)
qed

lemma update_pair_extends:
  assumes "update_pair A t fs s = (r, s')"
  shows "extends (pair_effect t fs) s s'"
proof (cases "update_time t = update_time fs")
  case True
  with assms show ?thesis by (blast intro: gated_extends update_pair_stale)
next
  case False
  obtain g w1 where w: "firestore_write A t (world s) = (g, w1)"
    by (cases "firestore_write A t (world s)")
  obtain fd w2 where f: "get_firestore_first_in A (case_number t) (update_time t) w1 = (fd, w2)"
    by (cases "get_firestore_first_in A (case_number t) (update_time t) w1")
  from update_pair_fresh [OF False w f assms] obtain es where
    es: "trace s' = trace s @ Write t g # FirstIn (case_number t) (update_time t) fd # es"
        "list_all (\<lambda>e. is_Notify e \<and> pair_effect t fs e) es"
        "closed_cases s' = closed_cases s" by blast
  have "list_all (pair_effect t fs) (Write t g # FirstIn (case_number t) (update_time t) fd # es)"
    using es(2) False by (simp add: pair_effect_def list_all_iff)
  with es(1,3) show ?thesis unfolding extends_def by blast
qed

lemma inner_loop_no_match:
  "\<forall>fs\<in>set cases. case_number t \<noteq> case_number fs \<Longrightarrow> inner_loop A t cases b s = (Inr b, s)"
  by (induction cases arbitrary: b s) simp_all

lemma inner_loop_single:
  assumes "distinct (map case_number cases)" and "fs \<in> set cases"
      and "case_number t = case_number fs"
  shows "inner_loop A t cases b s = and_then (update_pair A t fs s) (\<lambda>_ s1. (Inr False, s1))"
  using assms
proof (induction cases arbitrary: b s)
  case Nil
  then show ?case by simp
next
  case (Cons c rest)
  show ?case
  proof (cases "c = fs")
    case True
    from Cons.prems(1) True Cons.prems(3)
    have "\<forall>x\<in>set rest. case_number t \<noteq> case_number x" by auto
    then have "inner_loop A t rest False = (\<lambda>s1. (Inr False, s1))"
      by (intro ext inner_loop_no_match)
    with True Cons.prems(3) show ?thesis by simp
  next
    case False
    with Cons.prems(2) have in_rest: "fs \<in> set rest" by simp
    with Cons.prems(1) have "case_number c \<noteq> case_number fs" by auto
    with Cons.prems(3) have "case_number t \<noteq> case_number c" by simp
    moreover from Cons.prems(1) have "distinct (map case_number rest)" by simp
    ultimately show ?thesis using Cons.IH [OF _ in_rest Cons.prems(3)] by simp
  qed
qed

lemma update_case_single:
  assumes "distinct (map case_number cases)" and "fs \<in> set cases"
      and "case_number t = case_number fs"
      and "update_case A cases t s = (r, s')"
  shows "\<exists>r'. update_pair A t fs s = (r', s')"
  using assms(4) unfolding update_case_def inner_loop_single [OF assms(1,2,3)]
  by (auto simp: and_then_def split: prod.splits sum.splits)


subsection \<open>The first-writer gate of update detection\<close>

text \<open>
  Claim C2. Let the snapshots have distinct case numbers, and let the live case \<open>t\<close> have a
  snapshot \<open>fs\<close> with another update time. Processing \<open>t\<close> writes \<open>t\<close>, which returns the guid
  \<open>g\<close>, and reads the first-writer record \<open>fd\<close> of (case number, new update time); everything
  it does afterwards is a notification, and there is one only if \<open>fd\<close> exists and carries
  the guid \<open>g\<close>. A run whose guid does not match sends nothing for this update.
\<close>

theorem first_writer_gate:
  assumes "distinct (map case_number cases)" and "fs \<in> set cases"
      and "case_number t = case_number fs" and "update_time t \<noteq> update_time fs"
      and "firestore_write A t (world s) = (g, w1)"
      and "get_firestore_first_in A (case_number t) (update_time t) w1 = (fd, w2)"
      and "update_case A cases t s = (r, s')"
  shows "\<exists>es. trace s' = trace s @ Write t g # FirstIn (case_number t) (update_time t) fd # es
           \<and> list_all is_Notify es
           \<and> (es \<noteq> [] \<longrightarrow> (\<exists>d. fd = Some d \<and> fd_guid d = g))"
proof -
  from update_case_single [OF assms(1,2,3,7)] obtain r' where
    up: "update_pair A t fs s = (r', s')" by blast
  from update_pair_fresh [OF assms(4,5,6) up] obtain es where
    es: "trace s' = trace s @ Write t g # FirstIn (case_number t) (update_time t) fd # es"
        "list_all (\<lambda>e. is_Notify e \<and> pair_effect t fs e) es"
        "es \<noteq> [] \<longrightarrow> (\<exists>d. fd = Some d \<and> fd_guid d = g)" by blast
  from es(2) have "list_all is_Notify es" by (simp add: list_all_iff)
  with es(1,3) show ?thesis by blast
qed

theorem first_writer_gate_witness:
  "trace (snd (update_case sim [mk_case ''A'' ''T0'' [] ''P2'' False]
                 (mk_case ''A'' ''T1'' [] ''P1'' False)
                 (start (mk_world [mk_case ''A'' ''T0'' [] ''P2'' False] []))))
     = [Write (mk_case ''A'' ''T1'' [] ''P1'' False) ''g'',
        FirstIn ''A'' ''T1'' (Some \<lparr>fd_guid = ''g''\<rparr>),
        Notify (CaseNumber ''A'') ''priority'' (PStr ''P1'')]
   \<and> (\<exists>es. trace (snd (update_case sim [mk_case ''A'' ''T0'' [] ''P2'' False]
                 (mk_case ''A'' ''T1'' [] ''P1'' False)
                 (start (mk_world [mk_case ''A'' ''T0'' [] ''P2'' False] []))))
          = trace (start (mk_world [mk_case ''A'' ''T0'' [] ''P2'' False] []))
              @ Write (mk_case ''A'' ''T1'' [] ''P1'' False) ''g''
              # FirstIn ''A'' ''T1'' (Some \<lparr>fd_guid = ''g''\<rparr>) # es
        \<and> list_all is_Notify es
        \<and> (es \<noteq> [] \<longrightarrow> (\<exists>d. Some \<lparr>fd_guid = ''g''\<rparr> = Some d \<and> fd_guid d = ''g'')))"
proof -
  let ?fs = "mk_case ''A'' ''T0'' [] ''P2'' False"
  let ?t = "mk_case ''A'' ''T1'' [] ''P1'' False"
  let ?s = "start (mk_world [?fs] [])"
  let ?w = "sim_write ?t (mk_world [?fs] [])"
  have h1: "distinct (map case_number [?fs])" by simp
  have h2: "?fs \<in> set [?fs]" by simp
  have h3: "case_number ?t = case_number ?fs" by (simp add: mk_case_def)
  have h4: "update_time ?t \<noteq> update_time ?fs" by (simp add: mk_case_def)
  have h5: "firestore_write sim ?t (world ?s) = (''g'', snd ?w)"
    by (simp add: sim_def start_def sim_write_def guid_of_def mk_world_def Let_def)
  have h6: "get_firestore_first_in sim (case_number ?t) (update_time ?t) (snd ?w)
              = (Some \<lparr>fd_guid = ''g''\<rparr>, snd ?w)"
    by (simp add: sim_def sim_first_in_def sim_write_def guid_of_def mk_world_def mk_case_def
          Let_def)
  have h7: "update_case sim [?fs] ?t ?s
              = (fst (update_case sim [?fs] ?t ?s), snd (update_case sim [?fs] ?t ?s))"
    by simp
  have a: "trace (snd (update_case sim [?fs] ?t ?s))
     = [Write ?t ''g'', FirstIn ''A'' ''T1'' (Some \<lparr>fd_guid = ''g''\<rparr>),
        Notify (CaseNumber ''A'') ''priority'' (PStr ''P1'')]"
    by code_simp
  have b: "\<exists>es. trace (snd (update_case sim [?fs] ?t ?s))
          = trace ?s @ Write ?t ''g'' # FirstIn (case_number ?t) (update_time ?t)
                (Some \<lparr>fd_guid = ''g''\<rparr>) # es
        \<and> list_all is_Notify es
        \<and> (es \<noteq> [] \<longrightarrow> (\<exists>d. Some \<lparr>fd_guid = ''g''\<rparr> = Some d \<and> fd_guid d = ''g''))"
    by (rule first_writer_gate [OF h1 h2 h3 h4 h5 h6 h7])
  have c: "case_number ?t = ''A''" "update_time ?t = ''T1''" by (simp_all add: mk_case_def)
  show ?thesis using a b unfolding c by (rule conjI)
qed

subsection \<open>Auxiliary facts about automatic subscription\<close>

lemma tracking_check_extends:
  "tracking_check A ch ty aid cn s = (r, s') \<Longrightarrow> extends subscription_effect s s'"
  by (auto simp: tracking_check_def do_collection_get_def do_subscribe_def Let_def extends_def
        emit_def subscription_effect_def split: prod.splits option.splits)

lemma folder_loop_extends:
  "folder_loop A ch cn folders acc s = (r, s') \<Longrightarrow> extends subscription_effect s s'"
proof (induction folders arbitrary: acc s)
  case Nil
  then show ?case by (simp add: extends_refl)
next
  case (Cons f rest)
  obtain ne s1 where tc: "tracking_check A ch ''folders'' (Some f) cn s = (ne, s1)"
    by (cases "tracking_check A ch ''folders'' (Some f) cn s")
  have e1: "extends subscription_effect s s1" using tc by (rule tracking_check_extends)
  show ?case
  proof (cases ne)
    case Nil
    with Cons.prems tc have "s' = s1" by simp
    with e1 show ?thesis by simp
  next
    case (Cons e es)
    with Cons.prems tc
    have "folder_loop A ch cn rest (acc @ map (\<lambda>c. [c]) e) s1 = (r, s')" by simp
    then have "extends subscription_effect s1 s'" by (rule Cons.IH)
    with e1 show ?thesis by (rule extends_trans)
  qed
qed

lemma channel_step_extends:
  assumes "channel_step A org folders pid cn ch s = (r, s')"
  shows "extends subscription_effect s s'"
proof -
  obtain oe s1 where tc: "tracking_check A ch ''organizations'' org cn s = (oe, s1)"
    by (cases "tracking_check A ch ''organizations'' org cn s")
  have e1: "extends subscription_effect s s1" using tc by (rule tracking_check_extends)
  obtain fr s2 where fl: "folder_loop A ch cn folders [] s1 = (fr, s2)"
    by (cases "folder_loop A ch cn folders [] s1")
  have e2: "extends subscription_effect s1 s2" using fl by (rule folder_loop_extends)
  show ?thesis
  proof (cases fr)
    case (Inl e)
    with assms tc fl have "s' = s2" by (simp add: channel_step_def and_then_def)
    with e1 e2 show ?thesis by (blast intro: extends_trans)
  next
    case (Inr fe)
    obtain pe s3 where tp: "tracking_check A ch ''projects'' (Some pid) cn s2 = (pe, s3)"
      by (cases "tracking_check A ch ''projects'' (Some pid) cn s2")
    have e3: "extends subscription_effect s2 s3" using tp by (rule tracking_check_extends)
    from assms tc fl Inr tp
    have "s' = do_add_comment A ch cn
                 (response_text [join '', '' oe, join '', '' fe, join '', '' pe])
                 [] ''Auto Asset Subscription'' False s3"
      by (simp add: channel_step_def and_then_def)
    then have e4: "extends subscription_effect s3 s'"
      by (simp add: do_add_comment_def extends_def emit_def subscription_effect_def)
    from e1 e2 e3 e4 show ?thesis by (blast intro: extends_trans)
  qed
qed

lemma channel_loop_extends:
  "channel_loop A org folders pid cn chs s = (r, s') \<Longrightarrow> extends subscription_effect s s'"
proof (induction chs arbitrary: s)
  case Nil
  then show ?case by (simp add: extends_refl)
next
  case (Cons ch rest)
  show ?case
  proof (rule and_then_cases [OF Cons.prems [simplified channel_loop.simps]])
    fix e assume "channel_step A org folders pid cn ch s = (Inl e, s')"
    then show ?thesis by (rule channel_step_extends)
  next
    fix a s1
    assume st: "channel_step A org folders pid cn ch s = (Inr a, s1)"
      and lp: "channel_loop A org folders pid cn rest s1 = (r, s')"
    from st have "extends subscription_effect s s1" by (rule channel_step_extends)
    moreover from lp have "extends subscription_effect s1 s'" by (rule Cons.IH)
    ultimately show ?thesis by (rule extends_trans)
  qed
qed

subsection \<open>Everything the loop over the live cases can do\<close>

lemma auto_cc_extends:
  assumes "auto_cc A c s = (r, s')"
  shows "extends subscription_effect s s'"
proof -
  obtain chs s1 where ta: "do_tracked_assets A s = (chs, s1)"
    by (cases "do_tracked_assets A s")
  obtain cp s2 where gp: "do_get_parent A (case_number c) s1 = (cp, s2)"
    by (cases "do_get_parent A (case_number c) s1")
  have "extends subscription_effect s s1"
    using ta by (auto simp: do_tracked_assets_def extends_def emit_def subscription_effect_def
                   split: prod.splits)
  moreover have "extends subscription_effect s1 s2"
    using gp by (auto simp: do_get_parent_def extends_def emit_def subscription_effect_def
                   split: prod.splits)
  ultimately have e2: "extends subscription_effect s s2" by (rule extends_trans)
  show ?thesis
  proof (cases "re_search ''projects/'' not_slash cp")
    case None
    with assms ta gp have "s' = s2" by (simp add: auto_cc_def)
    with e2 show ?thesis by simp
  next
    case (Some pid)
    obtain pr s3 where pg: "do_projects_get A pid s2 = (pr, s3)"
      by (cases "do_projects_get A pid s2")
    have "extends subscription_effect s2 s3"
      using pg by (auto simp: do_projects_get_def extends_def emit_def subscription_effect_def
                     split: prod.splits)
    with e2 have e3: "extends subscription_effect s s3" by (rule extends_trans)
    have lg: "\<And>e. extends subscription_effect s3 (do_log e s3)"
      by (simp add: do_log_def extends_def emit_def subscription_effect_def)
    from assms ta gp Some pg
    consider "s' = s3" | e where "s' = do_log e s3"
      | org folders pid' where "channel_loop A org folders pid' (case_number c) chs s3 = (r, s')"
      by (auto simp: auto_cc_def split: sum.splits option.splits if_splits)
    then show ?thesis
    proof cases
      case 1
      with e3 show ?thesis by simp
    next
      case 2
      with e3 lg show ?thesis by (blast intro: extends_trans)
    next
      case 3
      then have "extends subscription_effect s3 s'" by (rule channel_loop_extends)
      with e3 show ?thesis by (rule extends_trans)
    qed
  qed
qed

lemma inner_loop_extends:
  "inner_loop A t cases b s = (r, s') \<Longrightarrow>
     extends (\<lambda>e. list_ex (\<lambda>fs. case_number t = case_number fs \<and> pair_effect t fs e) cases) s s'"
proof (induction cases arbitrary: b s)
  case Nil
  then show ?case by (simp add: extends_refl)
next
  case (Cons c rest)
  let ?P = "\<lambda>cs e. list_ex (\<lambda>fs. case_number t = case_number fs \<and> pair_effect t fs e) cs"
  show ?case
  proof (cases "case_number t = case_number c")
    case False
    with Cons.prems have "inner_loop A t rest b s = (r, s')" by simp
    then have "extends (?P rest) s s'" by (rule Cons.IH)
    then show ?thesis by (rule extends_mono) simp
  next
    case True
    with Cons.prems
    have at: "and_then (update_pair A t c s) (\<lambda>_ s1. inner_loop A t rest False s1) = (r, s')"
      by simp
    show ?thesis
    proof (rule and_then_cases [OF at])
      fix e assume "update_pair A t c s = (Inl e, s')"
      then have "extends (pair_effect t c) s s'" by (rule update_pair_extends)
      then show ?thesis by (rule extends_mono) (simp add: True)
    next
      fix a s1
      assume up: "update_pair A t c s = (Inr a, s1)"
        and lp: "inner_loop A t rest False s1 = (r, s')"
      from up have "extends (pair_effect t c) s s1" by (rule update_pair_extends)
      then have 1: "extends (?P (c # rest)) s s1" by (rule extends_mono) (simp add: True)
      from lp have "extends (?P rest) s1 s'" by (rule Cons.IH)
      then have 2: "extends (?P (c # rest)) s1 s'" by (rule extends_mono) simp
      from 1 2 show ?thesis by (rule extends_trans)
    qed
  qed
qed

lemma subscription_is_new_case_effect: "subscription_effect e \<Longrightarrow> new_case_effect t e"
  by (cases e) (simp_all add: subscription_effect_def new_case_effect_def)

lemma update_case_extends:
  assumes "update_case A cases t s = (r, s')"
  shows "extends (\<lambda>e. new_case_effect t e
            \<or> list_ex (\<lambda>fs. case_number t = case_number fs \<and> pair_effect t fs e) cases) s s'"
    (is "extends ?Q s s'")
proof (rule and_then_cases [OF assms [unfolded update_case_def]])
  fix e assume "inner_loop A t cases True s = (Inl e, s')"
  then have "extends (\<lambda>e. list_ex (\<lambda>fs. case_number t = case_number fs \<and> pair_effect t fs e) cases) s s'"
    by (rule inner_loop_extends)
  then show ?thesis by (rule extends_mono) simp
next
  fix is_new s1
  assume il: "inner_loop A t cases True s = (Inr is_new, s1)"
    and rest: "(if is_new then auto_cc A t (snd (do_write A t s1)) else (Inr (), s1)) = (r, s')"
  from il have "extends (\<lambda>e. list_ex (\<lambda>fs. case_number t = case_number fs \<and> pair_effect t fs e) cases) s s1"
    by (rule inner_loop_extends)
  then have 1: "extends ?Q s s1" by (rule extends_mono) simp
  show ?thesis
  proof (cases is_new)
    case False
    with rest have "s' = s1" by simp
    with 1 show ?thesis by simp
  next
    case True
    let ?s2 = "snd (do_write A t s1)"
    have 2: "extends ?Q s1 ?s2"
      by (auto simp: do_write_def extends_def emit_def new_case_effect_def split: prod.splits)
    from True rest have "auto_cc A t ?s2 = (r, s')" by simp
    then have "extends subscription_effect ?s2 s'" by (rule auto_cc_extends)
    then have 3: "extends ?Q ?s2 s'"
      by (rule extends_mono) (simp add: subscription_is_new_case_effect)
    from 1 2 3 show ?thesis by (blast intro: extends_trans)
  qed
qed

lemma update_loop_effects:
  "update_loop A cases temps s = (r, s') \<Longrightarrow> extends (update_effect cases temps) s s'"
proof (induction temps arbitrary: s)
  case Nil
  then show ?case by (simp add: extends_refl)
next
  case (Cons t rest)
  show ?case
  proof (rule and_then_cases [OF Cons.prems [simplified update_loop.simps]])
    fix e assume "update_case A cases t s = (Inl e, s')"
    then show ?thesis
      by (rule extends_mono [OF update_case_extends]) (simp add: update_effect_def)
  next
    fix a s1
    assume uc: "update_case A cases t s = (Inr a, s1)"
      and lp: "update_loop A cases rest s1 = (r, s')"
    have 1: "extends (update_effect cases (t # rest)) s s1"
      by (rule extends_mono [OF update_case_extends [OF uc]]) (simp add: update_effect_def)
    have 2: "extends (update_effect cases (t # rest)) s1 s'"
      by (rule extends_mono [OF Cons.IH [OF lp]]) (simp add: update_effect_def)
    from 1 2 show ?thesis by (rule extends_trans)
  qed
qed


subsection \<open>Comment events come from support staff\<close>

text \<open>
  Claim C6. Every \<^verbatim>\<open>comment\<close> event sent by the loop over the live cases is sent for a live
  case whose comment list differs from that of a snapshot with the same case number, whose
  newest (first) comment has a creator containing \<^verbatim>\<open>googleSupport\<close>, and its payload is the
  body of that comment. So a customer-authored newest comment yields no comment event.
\<close>

theorem comment_event_from_support:
  assumes "update_loop A cases temp_cases s = (r, s')"
  shows "\<exists>es. trace s' = trace s @ es
           \<and> (\<forall>sub pl. Notify sub ''comment'' pl \<in> set es \<longrightarrow>
                 (\<exists>t\<in>set temp_cases. \<exists>fs\<in>set cases. \<exists>c cs.
                     case_number t = case_number fs
                   \<and> comment_list fs \<noteq> comment_list t
                   \<and> comment_list t = c # cs
                   \<and> contains ''googleSupport'' (creator c)
                   \<and> sub = CaseNumber (case_number t)
                   \<and> pl = PStr (body c)))"
proof -
  from update_loop_effects [OF assms] obtain es where
    es: "trace s' = trace s @ es" "list_all (update_effect cases temp_cases) es"
    unfolding extends_def by blast
  have "\<exists>t\<in>set temp_cases. \<exists>fs\<in>set cases. \<exists>c cs.
            case_number t = case_number fs \<and> comment_list fs \<noteq> comment_list t
          \<and> comment_list t = c # cs \<and> contains ''googleSupport'' (creator c)
          \<and> sub = CaseNumber (case_number t) \<and> pl = PStr (body c)"
    if mem: "Notify sub ''comment'' pl \<in> set es" for sub pl
  proof -
    from es(2) mem have "update_effect cases temp_cases (Notify sub ''comment'' pl)"
      by (simp add: list_all_iff)
    then obtain t fs where t: "t \<in> set temp_cases" and fs: "fs \<in> set cases"
      and cn: "case_number t = case_number fs"
      and pe: "pair_effect t fs (Notify sub ''comment'' pl)"
      by (auto simp: update_effect_def list_ex_iff new_case_effect_def subscription_effect_def)
    from pe obtain c cs where "comment_list fs \<noteq> comment_list t" "comment_list t = c # cs"
      "contains ''googleSupport'' (creator c)" "sub = CaseNumber (case_number t)"
      "pl = PStr (body c)"
      by (auto simp: pair_effect_def split: list.splits)
    with t fs cn show ?thesis by blast
  qed
  with es(1) show ?thesis by blast
qed

theorem comment_event_from_support_witness:
  "trace (snd (update_loop sim [mk_case ''A'' ''T0'' [] ''P2'' False]
                 [mk_case ''A'' ''T1''
                    [\<lparr>creator = ''googleSupport'', body = ''hello'', create_time = ''T1''\<rparr>]
                    ''P2'' False]
                 (start (mk_world [mk_case ''A'' ''T0'' [] ''P2'' False] []))))
     = [Write (mk_case ''A'' ''T1''
                 [\<lparr>creator = ''googleSupport'', body = ''hello'', create_time = ''T1''\<rparr>]
                 ''P2'' False) ''g'',
        FirstIn ''A'' ''T1'' (Some \<lparr>fd_guid = ''g''\<rparr>),
        Notify (CaseNumber ''A'') ''comment'' (PStr ''hello'')]
   \<and> (\<exists>es. trace (snd (update_loop sim [mk_case ''A'' ''T0'' [] ''P2'' False]
                 [mk_case ''A'' ''T1''
                    [\<lparr>creator = ''googleSupport'', body = ''hello'', create_time = ''T1''\<rparr>]
                    ''P2'' False]
                 (start (mk_world [mk_case ''A'' ''T0'' [] ''P2'' False] []))))
            = trace (start (mk_world [mk_case ''A'' ''T0'' [] ''P2'' False] [])) @ es
        \<and> (\<forall>sub pl. Notify sub ''comment'' pl \<in> set es \<longrightarrow>
             (\<exists>t\<in>set [mk_case ''A'' ''T1''
                    [\<lparr>creator = ''googleSupport'', body = ''hello'', create_time = ''T1''\<rparr>]
                    ''P2'' False].
              \<exists>fs\<in>set [mk_case ''A'' ''T0'' [] ''P2'' False]. \<exists>c cs.
                  case_number t = case_number fs
                \<and> comment_list fs \<noteq> comment_list t
                \<and> comment_list t = c # cs
                \<and> contains ''googleSupport'' (creator c)
                \<and> sub = CaseNumber (case_number t)
                \<and> pl = PStr (body c))))"
proof -
  let ?fs = "mk_case ''A'' ''T0'' [] ''P2'' False"
  let ?t = "mk_case ''A'' ''T1''
              [\<lparr>creator = ''googleSupport'', body = ''hello'', create_time = ''T1''\<rparr>] ''P2'' False"
  let ?s = "start (mk_world [?fs] [])"
  have h: "update_loop sim [?fs] [?t] ?s
             = (fst (update_loop sim [?fs] [?t] ?s), snd (update_loop sim [?fs] [?t] ?s))"
    by simp
  have a: "trace (snd (update_loop sim [?fs] [?t] ?s))
     = [Write ?t ''g'', FirstIn ''A'' ''T1'' (Some \<lparr>fd_guid = ''g''\<rparr>),
        Notify (CaseNumber ''A'') ''comment'' (PStr ''hello'')]"
    by code_simp
  show ?thesis
    by (rule conjI [OF a comment_event_from_support [OF h]])
qed

subsection \<open>Auxiliary facts about one iteration\<close>

lemma fold_do_delete:
  "trace (fold (do_delete A) cs s) = trace s @ map Delete cs
   \<and> closed_cases (fold (do_delete A) cs s) = closed_cases s"
  by (induction cs arbitrary: s) (simp_all add: do_delete_def emit_def)

lemma do_parse_eq:
  "do_parse A raw s = (r, s') \<Longrightarrow> trace s' = trace s @ [Parse] \<and> closed_cases s' = closed_cases s"
  by (auto simp: do_parse_def emit_def split: prod.splits)

lemma update_effect_not_Delete: "update_effect cases temps e \<Longrightarrow> \<not> is_Delete e"
  by (cases e)
     (auto simp: update_effect_def list_ex_iff new_case_effect_def subscription_effect_def
        pair_effect_def is_Delete_def)

lemma closure_effect_not_Delete: "closure_effect fs e \<Longrightarrow> \<not> is_Delete e"
  by (cases e) (simp_all add: closure_effect_def is_Delete_def)

subsection \<open>Auxiliary facts about parsing the payload\<close>

lemma parse_loop_ok:
  "parse_loop A raws temp s = (Inr (Some temp'), s') \<Longrightarrow>
     trace s' = trace s @ replicate (length raws) Parse"
proof (induction raws arbitrary: temp s)
  case Nil
  then show ?case by simp
next
  case (Cons raw rest)
  obtain pr s1 where dp: "do_parse A raw s = (pr, s1)" by (cases "do_parse A raw s")
  with Cons.prems obtain c where c: "pr = Inr c"
    and lp: "parse_loop A rest (temp @ [c]) s1 = (Inr (Some temp'), s')"
    by (cases pr) (auto split: if_splits)
  from Cons.IH [OF lp] do_parse_eq [OF dp] show ?case
    by (simp add: replicate_append_same)
qed

lemma parse_loop_append:
  "parse_loop A pre temp s = (Inr (Some temp1), s1) \<Longrightarrow>
     parse_loop A (pre @ rest) temp s = parse_loop A rest temp1 s1"
proof (induction pre arbitrary: temp s)
  case Nil
  then show ?case by simp
next
  case (Cons raw pre)
  obtain pr s0 where dp: "do_parse A raw s = (pr, s0)" by (cases "do_parse A raw s")
  with Cons.prems obtain c where c: "pr = Inr c"
    and lp: "parse_loop A pre (temp @ [c]) s0 = (Inr (Some temp1), s1)"
    by (cases pr) (auto split: if_splits)
  from Cons.IH [OF lp] dp c show ?case by simp
qed

subsection \<open>Auxiliary facts about closure detection in one iteration\<close>

lemma closure_step_marks:
  assumes "closure_step A temp fs s = (fs', s')"
  shows "\<exists>es. trace s' = trace s @ es
           \<and> (unmarked_absent temp fs \<longrightarrow> (\<exists>g. Write (fs\<lparr>update_time := sentinel\<rparr>) g \<in> set es))
           \<and> (\<forall>c. c \<in> set (closed_cases s') \<longleftrightarrow>
                  c \<in> set (closed_cases s) \<or> Notify (CaseNumber c) ''closed'' (PStr []) \<in> set es)
           \<and> (\<forall>e\<in>set es. unmarked_absent temp fs \<and> closure_effect fs e)"
proof -
  from closure_step_cases [OF assms]
  consider (skip) "\<not> unmarked_absent temp fs" "s' = s"
    | (mark) g fd where "unmarked_absent temp fs"
        "trace s' = trace s @ [Write (fs\<lparr>update_time := sentinel\<rparr>) g,
                               FirstIn (case_number fs) sentinel fd]
             @ (if \<exists>d. fd = Some d \<and> g = fd_guid d
                then [Notify (CaseNumber (case_number fs)) ''closed'' (PStr [])] else [])"
        "closed_cases s' = closed_cases s
             @ (if \<exists>d. fd = Some d \<and> g = fd_guid d then [case_number fs] else [])"
    by auto
  then show ?thesis
  proof cases
    case skip
    then show ?thesis by (intro exI [of _ "[]"]) simp
  next
    case mark
    let ?es = "[Write (fs\<lparr>update_time := sentinel\<rparr>) g, FirstIn (case_number fs) sentinel fd]
             @ (if \<exists>d. fd = Some d \<and> g = fd_guid d
                then [Notify (CaseNumber (case_number fs)) ''closed'' (PStr [])] else [])"
    have a: "trace s' = trace s @ ?es" using mark(2) by simp
    have b: "unmarked_absent temp fs \<longrightarrow> (\<exists>g. Write (fs\<lparr>update_time := sentinel\<rparr>) g \<in> set ?es)"
      by auto
    have c: "\<forall>c. c \<in> set (closed_cases s') \<longleftrightarrow>
                  c \<in> set (closed_cases s) \<or> Notify (CaseNumber c) ''closed'' (PStr []) \<in> set ?es"
      using mark(3) by auto
    have d: "\<forall>e\<in>set ?es. unmarked_absent temp fs \<and> closure_effect fs e"
      using mark(1) by (auto simp: closure_effect_def)
    show ?thesis by (rule exI [of _ ?es]) (intro conjI a b c d)
  qed
qed

lemma closure_loop_marks:
  "closure_loop A temp cases s = (cases', s') \<Longrightarrow>
     \<exists>es. trace s' = trace s @ es
       \<and> (\<forall>fs\<in>set cases. unmarked_absent temp fs \<longrightarrow>
              (\<exists>g. Write (fs\<lparr>update_time := sentinel\<rparr>) g \<in> set es))
       \<and> (\<forall>c. c \<in> set (closed_cases s') \<longleftrightarrow>
              c \<in> set (closed_cases s) \<or> Notify (CaseNumber c) ''closed'' (PStr []) \<in> set es)
       \<and> (\<forall>e\<in>set es. \<exists>fs\<in>set cases. unmarked_absent temp fs \<and> closure_effect fs e)"
proof (induction cases arbitrary: s cases' s')
  case Nil
  then show ?case by simp
next
  case (Cons fs rest)
  obtain fs1 s1 where step: "closure_step A temp fs s = (fs1, s1)"
    by (cases "closure_step A temp fs s")
  obtain rest1 s2 where loop: "closure_loop A temp rest s1 = (rest1, s2)"
    by (cases "closure_loop A temp rest s1")
  from Cons.prems step loop have s': "s' = s2" by simp
  from closure_step_marks [OF step] obtain es1 where
    st: "trace s1 = trace s @ es1"
        "unmarked_absent temp fs \<longrightarrow> (\<exists>g. Write (fs\<lparr>update_time := sentinel\<rparr>) g \<in> set es1)"
        "\<forall>c. c \<in> set (closed_cases s1) \<longleftrightarrow>
              c \<in> set (closed_cases s) \<or> Notify (CaseNumber c) ''closed'' (PStr []) \<in> set es1"
        "\<forall>e\<in>set es1. unmarked_absent temp fs \<and> closure_effect fs e"
    by blast
  from Cons.IH [OF loop] obtain es2 where
    lp: "trace s2 = trace s1 @ es2"
        "\<forall>fs\<in>set rest. unmarked_absent temp fs \<longrightarrow>
              (\<exists>g. Write (fs\<lparr>update_time := sentinel\<rparr>) g \<in> set es2)"
        "\<forall>c. c \<in> set (closed_cases s2) \<longleftrightarrow>
              c \<in> set (closed_cases s1) \<or> Notify (CaseNumber c) ''closed'' (PStr []) \<in> set es2"
        "\<forall>e\<in>set es2. \<exists>fs\<in>set rest. unmarked_absent temp fs \<and> closure_effect fs e"
    by blast
  have a: "trace s' = trace s @ (es1 @ es2)" using st(1) lp(1) s' by simp
  have b: "\<forall>x\<in>set (fs # rest). unmarked_absent temp x \<longrightarrow>
              (\<exists>g. Write (x\<lparr>update_time := sentinel\<rparr>) g \<in> set (es1 @ es2))"
    using st(2) lp(2) by auto
  have c: "\<forall>c. c \<in> set (closed_cases s') \<longleftrightarrow>
              c \<in> set (closed_cases s) \<or> Notify (CaseNumber c) ''closed'' (PStr []) \<in> set (es1 @ es2)"
    using st(3) lp(3) s' by auto
  have d: "\<forall>e\<in>set (es1 @ es2). \<exists>x\<in>set (fs # rest). unmarked_absent temp x \<and> closure_effect x e"
    using st(4) lp(4) by auto
  show ?case by (rule exI [of _ "es1 @ es2"]) (intro conjI a b c d)
qed

lemma update_effect_not_closed:
  "update_effect cases temps (Notify sub kind pl) \<Longrightarrow> kind \<noteq> ''closed''"
  by (auto simp: update_effect_def list_ex_iff new_case_effect_def subscription_effect_def
        pair_effect_def)

lemma parse_loop_ok_closed:
  "parse_loop A raws temp s = (Inr (Some temp'), s') \<Longrightarrow> closed_cases s' = closed_cases s"
proof (induction raws arbitrary: temp s)
  case Nil
  then show ?case by simp
next
  case (Cons raw rest)
  obtain pr s1 where dp: "do_parse A raw s = (pr, s1)" by (cases "do_parse A raw s")
  with Cons.prems obtain c where c: "pr = Inr c"
    and lp: "parse_loop A rest (temp @ [c]) s1 = (Inr (Some temp'), s')"
    by (cases pr) (auto split: if_splits)
  from Cons.IH [OF lp] do_parse_eq [OF dp] show ?case by simp
qed

subsection \<open>When a closed case is deleted\<close>

text \<open>
  Claim C4, as amended. Take an iteration in which the search and the parsing succeed, with
  \<open>cases\<close> the snapshots read and \<open>temp_cases\<close> the live cases. After the read, the search
  and the parse attempts, its calls split into a part \<open>mid\<close> and a rest. The part \<open>mid\<close>
  contains no delete; it contains, for every snapshot that is not yet marked and whose case
  number is absent from the live cases, a store write of that snapshot with the sentinel
  update time; and it contains the \<^verbatim>\<open>closed\<close> event of a case number exactly when that
  number is in \<^verbatim>\<open>closed_cases\<close> at the end of the iteration. Every number in
  \<^verbatim>\<open>closed_cases\<close> is the number of a snapshot found absent and unmarked in this iteration.
  The rest is empty when the iteration ends in an exception; otherwise it is the sleep of
  10 seconds followed by one delete for each number in \<^verbatim>\<open>closed_cases\<close>, in order. So the
  snapshot is rewritten with the sentinel first, and the delete is issued by the same
  iteration, after its sleep.
\<close>

theorem absent_case_marked_then_deleted:
  assumes gc: "do_get_cases A (s\<lparr>closed_cases := []\<rparr>) = (cases, s1)"
      and se: "do_search A s1 = (Inr resp, s2)"
      and pl: "parse_loop A resp [] s2 = (Inr (Some temp_cases), s3)"
      and cy: "cycle A is_test s = (r, s')"
  shows "\<exists>mid. trace s'
           = trace s @ [GetCases, Search] @ replicate (length resp) Parse @ mid
               @ (case r of Inl e \<Rightarrow> [] | Inr c \<Rightarrow> Sleep 10 # map Delete (closed_cases s'))
         \<and> list_all (\<lambda>e. \<not> is_Delete e) mid
         \<and> (\<forall>fs\<in>set cases. unmarked_absent temp_cases fs \<longrightarrow>
                (\<exists>g. Write (fs\<lparr>update_time := sentinel\<rparr>) g \<in> set mid))
         \<and> (\<forall>c. c \<in> set (closed_cases s') \<longleftrightarrow>
                Notify (CaseNumber c) ''closed'' (PStr []) \<in> set mid)
         \<and> (\<forall>c\<in>set (closed_cases s'). \<exists>fs\<in>set cases.
                unmarked_absent temp_cases fs \<and> case_number fs = c)"
proof -
  obtain cases' s4 where cl: "closure_loop A temp_cases cases s3 = (cases', s4)"
    by (cases "closure_loop A temp_cases cases s3")
  obtain ru s5 where ul: "update_loop A cases' temp_cases s4 = (ru, s5)"
    by (cases "update_loop A cases' temp_cases s4")
  have t1: "trace s1 = trace s @ [GetCases]" "closed_cases s1 = []"
    using gc by (auto simp: do_get_cases_def emit_def split: prod.splits)
  have t2: "trace s2 = trace s1 @ [Search]" "closed_cases s2 = closed_cases s1"
    using se by (auto simp: do_search_def emit_def split: prod.splits)
  have t3: "trace s3 = trace s2 @ replicate (length resp) Parse" "closed_cases s3 = closed_cases s2"
    using parse_loop_ok [OF pl] parse_loop_ok_closed [OF pl] by simp_all
  from closure_loop_marks [OF cl] obtain es where
    c: "trace s4 = trace s3 @ es"
       "\<forall>fs\<in>set cases. unmarked_absent temp_cases fs \<longrightarrow>
              (\<exists>g. Write (fs\<lparr>update_time := sentinel\<rparr>) g \<in> set es)"
       "\<forall>c. c \<in> set (closed_cases s4) \<longleftrightarrow>
              c \<in> set (closed_cases s3) \<or> Notify (CaseNumber c) ''closed'' (PStr []) \<in> set es"
       "\<forall>e\<in>set es. \<exists>fs\<in>set cases. unmarked_absent temp_cases fs \<and> closure_effect fs e"
    by blast
  from update_loop_effects [OF ul] obtain us where
    u: "trace s5 = trace s4 @ us" "list_all (update_effect cases' temp_cases) us"
       "closed_cases s5 = closed_cases s4"
    unfolding extends_def by blast
  let ?mid = "es @ us"
  have tr5: "trace s5 = trace s @ [GetCases, Search] @ replicate (length resp) Parse @ ?mid"
    using t1(1) t2(1) t3(1) c(1) u(1) by simp
  have "list_all (\<lambda>e. \<not> is_Delete e) es"
    using c(4) closure_effect_not_Delete by (auto simp: list_all_iff)
  moreover have "list_all (\<lambda>e. \<not> is_Delete e) us"
    using u(2) update_effect_not_Delete by (auto simp: list_all_iff)
  ultimately have nd: "list_all (\<lambda>e. \<not> is_Delete e) ?mid" by simp
  have mk: "\<forall>fs\<in>set cases. unmarked_absent temp_cases fs \<longrightarrow>
              (\<exists>g. Write (fs\<lparr>update_time := sentinel\<rparr>) g \<in> set ?mid)"
    using c(2) by auto
  have nus: "Notify (CaseNumber x) ''closed'' (PStr []) \<notin> set us" for x
  proof
    assume "Notify (CaseNumber x) ''closed'' (PStr []) \<in> set us"
    with u(2) have "update_effect cases' temp_cases (Notify (CaseNumber x) ''closed'' (PStr []))"
      by (simp add: list_all_iff)
    from update_effect_not_closed [OF this] show False by simp
  qed
  have c3: "closed_cases s3 = []" using t1(2) t2(2) t3(2) by simp
  have q5: "\<forall>x. x \<in> set (closed_cases s5) \<longleftrightarrow>
              Notify (CaseNumber x) ''closed'' (PStr []) \<in> set ?mid"
    using c(3) c3 u(3) nus by simp
  have own: "\<forall>x\<in>set (closed_cases s5). \<exists>fs\<in>set cases.
              unmarked_absent temp_cases fs \<and> case_number fs = x"
  proof
    fix x assume "x \<in> set (closed_cases s5)"
    with c(3) c3 u(3) have "Notify (CaseNumber x) ''closed'' (PStr []) \<in> set es" by simp
    with c(4) obtain fs where fs: "fs \<in> set cases" "unmarked_absent temp_cases fs"
      "closure_effect fs (Notify (CaseNumber x) ''closed'' (PStr []))" by blast
    from fs(3) have "case_number fs = x" by (simp add: closure_effect_def)
    with fs(1,2) show "\<exists>fs\<in>set cases. unmarked_absent temp_cases fs \<and> case_number fs = x"
      by blast
  qed
  show ?thesis
  proof (cases ru)
    case (Inl e)
    with cy gc se pl cl ul have rs: "r = Inl e" "s' = s5" by (simp_all add: cycle_def)
    show ?thesis unfolding rs
      by (rule exI [of _ ?mid]) (use tr5 nd mk q5 own in simp)
  next
    case (Inr v)
    let ?s6 = "do_sleep A 10 s5"
    from cy gc se pl cl ul Inr
    have rs: "r = Inr (if is_test then Break else Continue)"
      "s' = fold (do_delete A) (closed_cases ?s6) ?s6"
      by (simp_all add: cycle_def Let_def)
    have c6: "closed_cases ?s6 = closed_cases s5" "trace ?s6 = trace s5 @ [Sleep 10]"
      by (simp_all add: do_sleep_def emit_def)
    from rs(2) c6 fold_do_delete [of A "closed_cases ?s6" ?s6]
    have ts': "trace s' = trace s5 @ Sleep 10 # map Delete (closed_cases s5)"
      and cs': "closed_cases s' = closed_cases s5" by simp_all
    have tr: "trace s' = trace s @ [GetCases, Search] @ replicate (length resp) Parse @ ?mid
               @ (case r of Inl e \<Rightarrow> [] | Inr c \<Rightarrow> Sleep 10 # map Delete (closed_cases s'))"
      using ts' cs' tr5 rs(1) by simp
    show ?thesis
      by (rule exI [of _ ?mid]) (use tr nd mk q5 own cs' in simp)
  qed
qed

theorem absent_case_marked_then_deleted_witness:
  "trace (snd (cycle sim True
      (start (mk_world [mk_case ''A'' ''T0'' [] ''P2'' False, mk_case ''B'' ''T0'' [] ''P2'' False]
        [Inr (mk_case ''B'' ''T1'' [] ''P1'' False)]))))
     = [GetCases, Search, Parse,
        Write (mk_case ''A'' sentinel [] ''P2'' False) ''g'',
        FirstIn ''A'' sentinel (Some \<lparr>fd_guid = ''g''\<rparr>),
        Notify (CaseNumber ''A'') ''closed'' (PStr []),
        Write (mk_case ''B'' ''T1'' [] ''P1'' False) ''gg'',
        FirstIn ''B'' ''T1'' (Some \<lparr>fd_guid = ''gg''\<rparr>),
        Notify (CaseNumber ''B'') ''priority'' (PStr ''P1''),
        Sleep 10,
        Delete ''A'']
   \<and> closed_cases (snd (cycle sim True
      (start (mk_world [mk_case ''A'' ''T0'' [] ''P2'' False, mk_case ''B'' ''T0'' [] ''P2'' False]
        [Inr (mk_case ''B'' ''T1'' [] ''P1'' False)])))) = [''A'']
   \<and> (\<exists>mid. trace (snd (cycle sim True
      (start (mk_world [mk_case ''A'' ''T0'' [] ''P2'' False, mk_case ''B'' ''T0'' [] ''P2'' False]
        [Inr (mk_case ''B'' ''T1'' [] ''P1'' False)]))))
           = trace (start (mk_world [mk_case ''A'' ''T0'' [] ''P2'' False, mk_case ''B'' ''T0'' [] ''P2'' False]
        [Inr (mk_case ''B'' ''T1'' [] ''P1'' False)])) @ [GetCases, Search] @ replicate (length [Inr (mk_case ''B'' ''T1'' [] ''P1'' False) :: exn + case_rec]) Parse @ mid
               @ (case fst (cycle sim True
      (start (mk_world [mk_case ''A'' ''T0'' [] ''P2'' False, mk_case ''B'' ''T0'' [] ''P2'' False]
        [Inr (mk_case ''B'' ''T1'' [] ''P1'' False)]))) of Inl e \<Rightarrow> [] | Inr c \<Rightarrow> Sleep 10 # map Delete (closed_cases (snd (cycle sim True
      (start (mk_world [mk_case ''A'' ''T0'' [] ''P2'' False, mk_case ''B'' ''T0'' [] ''P2'' False]
        [Inr (mk_case ''B'' ''T1'' [] ''P1'' False)]))))))
         \<and> list_all (\<lambda>e. \<not> is_Delete e) mid
         \<and> (\<forall>fs\<in>set [mk_case ''A'' ''T0'' [] ''P2'' False, mk_case ''B'' ''T0'' [] ''P2'' False]. unmarked_absent [mk_case ''B'' ''T1'' [] ''P1'' False] fs \<longrightarrow>
                (\<exists>g. Write (fs\<lparr>update_time := sentinel\<rparr>) g \<in> set mid))
         \<and> (\<forall>c. c \<in> set (closed_cases (snd (cycle sim True
      (start (mk_world [mk_case ''A'' ''T0'' [] ''P2'' False, mk_case ''B'' ''T0'' [] ''P2'' False]
        [Inr (mk_case ''B'' ''T1'' [] ''P1'' False)]))))) \<longleftrightarrow>
                Notify (CaseNumber c) ''closed'' (PStr []) \<in> set mid)
         \<and> (\<forall>c\<in>set (closed_cases (snd (cycle sim True
      (start (mk_world [mk_case ''A'' ''T0'' [] ''P2'' False, mk_case ''B'' ''T0'' [] ''P2'' False]
        [Inr (mk_case ''B'' ''T1'' [] ''P1'' False)]))))). \<exists>fs\<in>set [mk_case ''A'' ''T0'' [] ''P2'' False, mk_case ''B'' ''T0'' [] ''P2'' False].
                unmarked_absent [mk_case ''B'' ''T1'' [] ''P1'' False] fs \<and> case_number fs = c))"
proof -
  let ?s = "(start (mk_world [mk_case ''A'' ''T0'' [] ''P2'' False, mk_case ''B'' ''T0'' [] ''P2'' False]
        [Inr (mk_case ''B'' ''T1'' [] ''P1'' False)]))"
  let ?gc = "do_get_cases sim (?s\<lparr>closed_cases := []\<rparr>)"
  let ?se = "do_search sim (snd ?gc)"
  let ?pl = "parse_loop sim [Inr (mk_case ''B'' ''T1'' [] ''P1'' False)] [] (snd ?se)"
  have gc: "?gc = ([mk_case ''A'' ''T0'' [] ''P2'' False, mk_case ''B'' ''T0'' [] ''P2'' False], snd ?gc)" by code_simp
  have se: "?se = (Inr [Inr (mk_case ''B'' ''T1'' [] ''P1'' False)], snd ?se)" by code_simp
  have pl: "?pl = (Inr (Some [mk_case ''B'' ''T1'' [] ''P1'' False]), snd ?pl)" by code_simp
  have cy: "cycle sim True ?s = (fst (cycle sim True ?s), snd (cycle sim True ?s))" by simp
  have a: "trace (snd (cycle sim True ?s)) = [GetCases, Search, Parse,
        Write (mk_case ''A'' sentinel [] ''P2'' False) ''g'',
        FirstIn ''A'' sentinel (Some \<lparr>fd_guid = ''g''\<rparr>),
        Notify (CaseNumber ''A'') ''closed'' (PStr []),
        Write (mk_case ''B'' ''T1'' [] ''P1'' False) ''gg'',
        FirstIn ''B'' ''T1'' (Some \<lparr>fd_guid = ''gg''\<rparr>),
        Notify (CaseNumber ''B'') ''priority'' (PStr ''P1''),
        Sleep 10,
        Delete ''A'']" by code_simp
  have b: "closed_cases (snd (cycle sim True ?s)) = [''A'']" by code_simp
  show ?thesis
    by (intro conjI a b absent_case_marked_then_deleted [OF gc se pl cy])
qed

text \<open>
  The claim as stated fails: in a run of a single iteration (\<^verbatim>\<open>is_test\<close> set) that finds
  the tracked case A absent, the snapshot is marked and, after the sleep, deleted by that
  same iteration; the store is empty when the only cycle of the run is over.
\<close>

theorem deleted_in_detecting_cycle:
  "case_updates (Suc 0) sim True (start (mk_world [mk_case ''A'' ''T0'' [] ''P2'' False] []))
     = (Some (Inr ()),
        snd (cycle sim True (start (mk_world [mk_case ''A'' ''T0'' [] ''P2'' False] []))))
   \<and> trace (snd (cycle sim True (start (mk_world [mk_case ''A'' ''T0'' [] ''P2'' False] []))))
     = [GetCases, Search,
        Write (mk_case ''A'' sentinel [] ''P2'' False) ''g'',
        FirstIn ''A'' sentinel (Some \<lparr>fd_guid = ''g''\<rparr>),
        Notify (CaseNumber ''A'') ''closed'' (PStr []),
        Sleep 10,
        Delete ''A'']
   \<and> sw_docs (world (snd (cycle sim True
          (start (mk_world [mk_case ''A'' ''T0'' [] ''P2'' False] []))))) = []"
  by code_simp

subsection \<open>A record that fails to parse defers the whole cycle\<close>

text \<open>
  Claim C9, as amended. Let the records before \<open>raw\<close> parse and let \<^verbatim>\<open>SupportCase\<close> raise,
  for \<open>raw\<close>, an exception of class \<^verbatim>\<open>NameError\<close>, the class caught at line 91. Then the
  iteration consists of reading the snapshots, the search, the parse attempts, one log entry
  and a sleep of 5 seconds, and of nothing else: no store write, no notification, no delete.
  The process has slept 5 seconds, \<^verbatim>\<open>closed_cases\<close> is empty, and the iteration ends with
  \<^verbatim>\<open>continue\<close>, so the loop goes on with the next iteration, in test mode as well.
\<close>

theorem parse_failure_defers_cycle:
  assumes gc: "do_get_cases A (s\<lparr>closed_cases := []\<rparr>) = (cases, s1)"
      and se: "do_search A s1 = (Inr (pre @ raw # post), s2)"
      and ok: "parse_loop A pre [] s2 = (Inr (Some temp), sp)"
      and bad: "SupportCase A raw (world sp) = (Inl e, w)"
      and ne: "is_NameError e"
  shows "\<exists>s'. cycle A is_test s = (Inr Continue, s')
           \<and> trace s' = trace s @ [GetCases, Search] @ replicate (Suc (length pre)) Parse
                           @ [LogError e, Sleep 5]
           \<and> world s' = sleep A 5 w
           \<and> closed_cases s' = []
           \<and> case_updates (Suc n) A is_test s = case_updates n A is_test s'"
proof -
  let ?sb = "emit Parse (sp\<lparr>world := w\<rparr>)"
  let ?s' = "do_sleep A 5 (do_log e ?sb)"
  have dp: "do_parse A raw sp = (Inl e, ?sb)" using bad by (simp add: do_parse_def)
  have "parse_loop A (raw # post) temp sp = (Inr None, do_log e ?sb)"
    using dp ne by simp
  with parse_loop_append [OF ok, of "raw # post"]
  have pl: "parse_loop A (pre @ raw # post) [] s2 = (Inr None, do_log e ?sb)" by simp
  have cy: "cycle A is_test s = (Inr Continue, ?s')"
    using gc se pl by (simp add: cycle_def)
  have t1: "trace s1 = trace s @ [GetCases]" "closed_cases s1 = []"
    using gc by (auto simp: do_get_cases_def emit_def split: prod.splits)
  have t2: "trace s2 = trace s1 @ [Search]" "closed_cases s2 = closed_cases s1"
    using se by (auto simp: do_search_def emit_def split: prod.splits)
  have tp: "trace sp = trace s2 @ replicate (length pre) Parse" using ok by (rule parse_loop_ok)
  have cp: "closed_cases sp = closed_cases s2" using ok by (rule parse_loop_ok_closed)
  have tr: "trace ?s' = trace s @ [GetCases, Search] @ replicate (Suc (length pre)) Parse
                           @ [LogError e, Sleep 5]"
    using t1(1) t2(1) tp by (simp add: do_sleep_def do_log_def emit_def replicate_append_same)
  have wo: "world ?s' = sleep A 5 w" by (simp add: do_sleep_def do_log_def emit_def)
  have cc: "closed_cases ?s' = []"
    using t1(2) t2(2) cp by (simp add: do_sleep_def do_log_def emit_def)
  have cu: "case_updates (Suc n) A is_test s = case_updates n A is_test ?s'"
    using cy by simp
  show ?thesis by (rule exI [of _ ?s']) (intro conjI cy tr wo cc cu)
qed

theorem parse_failure_defers_cycle_witness:
  "fst (cycle sim True (start (mk_world [mk_case ''A'' ''T0'' [] ''P2'' False]
          [Inr (mk_case ''A'' ''T1'' [] ''P1'' False), Inl NameError,
           Inr (mk_case ''B'' ''T1'' [] ''P1'' False)]))) = Inr Continue
   \<and> trace (snd (cycle sim True (start (mk_world [mk_case ''A'' ''T0'' [] ''P2'' False]
          [Inr (mk_case ''A'' ''T1'' [] ''P1'' False), Inl NameError,
           Inr (mk_case ''B'' ''T1'' [] ''P1'' False)]))))
     = [GetCases, Search, Parse, Parse, LogError NameError, Sleep 5]"
proof -
  let ?w = "mk_world [mk_case ''A'' ''T0'' [] ''P2'' False]
          [Inr (mk_case ''A'' ''T1'' [] ''P1'' False), Inl NameError,
           Inr (mk_case ''B'' ''T1'' [] ''P1'' False)]"
  let ?s = "start ?w"
  let ?s1 = "emit GetCases (?s\<lparr>closed_cases := []\<rparr>)"
  let ?s2 = "emit Search ?s1"
  let ?sp = "emit Parse ?s2"
  have gc: "do_get_cases sim (?s\<lparr>closed_cases := []\<rparr>) = ([mk_case ''A'' ''T0'' [] ''P2'' False], ?s1)"
    by (simp add: do_get_cases_def sim_def start_def mk_world_def emit_def)
  have se: "do_search sim ?s1
              = (Inr ([Inr (mk_case ''A'' ''T1'' [] ''P1'' False)] @ Inl NameError
                      # [Inr (mk_case ''B'' ''T1'' [] ''P1'' False)]), ?s2)"
    by (simp add: do_search_def sim_def start_def mk_world_def emit_def)
  have ok: "parse_loop sim [Inr (mk_case ''A'' ''T1'' [] ''P1'' False)] [] ?s2
              = (Inr (Some [mk_case ''A'' ''T1'' [] ''P1'' False]), ?sp)"
    by (simp add: do_parse_def sim_def start_def mk_world_def emit_def)
  have bad: "SupportCase sim (Inl NameError) (world ?sp) = (Inl NameError, world ?sp)"
    by (simp add: sim_def)
  have ne: "is_NameError NameError" by (simp add: is_NameError_def)
  from parse_failure_defers_cycle [OF gc se ok bad ne, of True 0] obtain s' where
    "cycle sim True ?s = (Inr Continue, s')"
    "trace s' = trace ?s @ [GetCases, Search] @ replicate (Suc (length [Inr (mk_case ''A'' ''T1'' [] ''P1'' False) :: exn + case_rec])) Parse
                           @ [LogError NameError, Sleep 5]"
    by blast
  then show ?thesis by (simp add: start_def)
qed

text \<open>
  The claim as stated fails for a record that fails to parse with another exception. When
  \<^verbatim>\<open>SupportCase\<close> raises \<^verbatim>\<open>KeyError\<close> for the second record of the payload, nothing catches
  it: it is not logged, there is no sleep and no retry, and it ends \<^verbatim>\<open>case_updates\<close>.
\<close>

theorem other_parse_error_is_fatal:
  "fst (case_updates 3 sim False
          (start (mk_world [mk_case ''A'' ''T0'' [] ''P2'' False]
                    [Inr (mk_case ''A'' ''T1'' [] ''P1'' False), Inl KeyError])))
     = Some (Inl KeyError)
   \<and> trace (snd (case_updates 3 sim False
          (start (mk_world [mk_case ''A'' ''T0'' [] ''P2'' False]
                    [Inr (mk_case ''A'' ''T1'' [] ''P1'' False), Inl KeyError]))))
     = [GetCases, Search, Parse, Parse]"
  by code_simp

subsection \<open>Errors while resolving the resource hierarchy\<close>

text \<open>
  Claim C8, as amended. Let \<open>t\<close> be a live case without a snapshot, and let the project
  lookup of \<^verbatim>\<open>auto_cc\<close> raise \<^verbatim>\<open>BrokenPipeError\<close>. Then the error is logged and \<^verbatim>\<open>auto_cc\<close>
  returns normally without subscribing: after the store write for \<open>t\<close> its calls are the
  read of the tracked assets, the parent lookup, the project lookup and the log entry, and
  nothing else. The loop over the live cases goes on with the cases after \<open>t\<close>.
\<close>

theorem broken_pipe_skips_subscription:
  assumes new: "\<forall>fs\<in>set cases. case_number t \<noteq> case_number fs"
      and wr: "firestore_write A t (world s) = (g, w0)"
      and ta: "do_tracked_assets A (snd (do_write A t s)) = (chs, s1)"
      and gp: "do_get_parent A (case_number t) s1 = (cp, s2)"
      and rs: "re_search ''projects/'' not_slash cp = Some pid"
      and pg: "projects_get A pid (world s2) = (Inl BrokenPipeError, w)"
  shows "\<exists>s'. auto_cc A t (snd (do_write A t s)) = (Inr (), s')
           \<and> trace s' = trace s @ [Write t g, TrackedAssets, GetParent (case_number t),
                                     ProjectsGet pid, LogError BrokenPipeError]
           \<and> update_loop A cases (t # rest) s = update_loop A cases rest s'"
proof -
  let ?s3 = "emit (ProjectsGet pid) (s2\<lparr>world := w\<rparr>)"
  let ?s' = "do_log BrokenPipeError ?s3"
  have dpg: "do_projects_get A pid s2 = (Inl BrokenPipeError, ?s3)"
    using pg by (simp add: do_projects_get_def)
  have ac: "auto_cc A t (snd (do_write A t s)) = (Inr (), ?s')"
    using ta gp rs dpg by (simp add: auto_cc_def)
  have t0: "trace (snd (do_write A t s)) = trace s @ [Write t g]"
    using wr by (simp add: do_write_def emit_def)
  have t1: "trace s1 = trace (snd (do_write A t s)) @ [TrackedAssets]"
    using ta by (auto simp: do_tracked_assets_def emit_def split: prod.splits)
  have t2: "trace s2 = trace s1 @ [GetParent (case_number t)]"
    using gp by (auto simp: do_get_parent_def emit_def split: prod.splits)
  have tr: "trace ?s' = trace s @ [Write t g, TrackedAssets, GetParent (case_number t),
                                     ProjectsGet pid, LogError BrokenPipeError]"
    using t0 t1 t2 by (simp add: do_log_def emit_def)
  have il: "inner_loop A t cases True s = (Inr True, s)"
    using new by (rule inner_loop_no_match)
  have uc: "update_case A cases t s = (Inr (), ?s')"
    using il ac by (simp add: update_case_def and_then_def)
  have ul: "update_loop A cases (t # rest) s = update_loop A cases rest ?s'"
    using uc by (simp add: and_then_def)
  show ?thesis by (rule exI [of _ ?s']) (intro conjI ac tr ul)
qed

theorem broken_pipe_skips_subscription_witness:
  "trace (snd (update_loop sim [] [mk_case ''A'' ''T1'' [] ''P1'' False]
          (start ((mk_world [] [])\<lparr>sw_project := Inl BrokenPipeError\<rparr>))))
     = [Write (mk_case ''A'' ''T1'' [] ''P1'' False) ''g'', TrackedAssets, GetParent ''A'',
        ProjectsGet ''projects/p1'', LogError BrokenPipeError]
   \<and> fst (update_loop sim [] [mk_case ''A'' ''T1'' [] ''P1'' False]
          (start ((mk_world [] [])\<lparr>sw_project := Inl BrokenPipeError\<rparr>))) = Inr ()"
proof -
  let ?t = "mk_case ''A'' ''T1'' [] ''P1'' False"
  let ?w = "(mk_world [] [])\<lparr>sw_project := Inl BrokenPipeError\<rparr>"
  let ?s = "start ?w"
  let ?sw = "snd (do_write sim ?t ?s)"
  let ?ta = "do_tracked_assets sim ?sw"
  let ?gp = "do_get_parent sim (case_number ?t) (snd ?ta)"
  have new: "\<forall>fs\<in>set []. case_number ?t \<noteq> case_number (fs :: case_rec)" by simp
  have wr: "firestore_write sim ?t (world ?s) = (''g'', snd (sim_write ?t ?w))"
    by (simp add: sim_def start_def sim_write_def guid_of_def mk_world_def Let_def)
  have ta: "?ta = (fst ?ta, snd ?ta)" by simp
  have gp: "?gp = (fst ?gp, snd ?gp)" by simp
  have rs: "re_search ''projects/'' not_slash (fst ?gp) = Some ''projects/p1''"
    by code_simp
  have pg: "projects_get sim ''projects/p1'' (world (snd ?gp))
              = (Inl BrokenPipeError, world (snd ?gp))"
    by code_simp
  from broken_pipe_skips_subscription [OF new wr ta gp rs pg, of "[]"] obtain s' where
    "trace s' = trace ?s @ [Write ?t ''g'', TrackedAssets, GetParent (case_number ?t),
                            ProjectsGet ''projects/p1'', LogError BrokenPipeError]"
    "update_loop sim [] [?t] ?s = update_loop sim [] [] s'"
    by blast
  then show ?thesis by (simp add: start_def mk_case_def)
qed

text \<open>
  The claim as stated fails for other errors of the resolution. When the parent path of the
  case has no \<^verbatim>\<open>projects/\<close> segment, \<^verbatim>\<open>re.search\<close> finds nothing and \<^verbatim>\<open>.group()\<close> raises
  \<^verbatim>\<open>AttributeError\<close>; nothing catches it, so it is not logged and it ends \<^verbatim>\<open>case_updates\<close>.
\<close>

theorem missing_project_is_fatal:
  "fst (case_updates 3 sim False
          (start ((mk_world [] [Inr (mk_case ''A'' ''T1'' [] ''P1'' False)])
                    \<lparr>sw_parent := ''organizations/1/cases/2''\<rparr>)))
     = Some (Inl AttributeError)
   \<and> trace (snd (case_updates 3 sim False
          (start ((mk_world [] [Inr (mk_case ''A'' ''T1'' [] ''P1'' False)])
                    \<lparr>sw_parent := ''organizations/1/cases/2''\<rparr>))))
     = [GetCases, Search, Parse, Write (mk_case ''A'' ''T1'' [] ''P1'' False) ''g'',
        TrackedAssets, GetParent ''A'']"
  by code_simp

subsection \<open>Notifications for a case whose update time did not change\<close>

text \<open>
  Claim C3 does not hold of the code. The field checks of lines 134 to 150 are made for
  every snapshot with the live case's number, also when the update times are equal; in that
  case \<^verbatim>\<open>guid\<close> and \<^verbatim>\<open>first_doc_in\<close> still hold the values of an earlier write. Here case A
  has a new update time and this process is its first writer; case B has the update time of
  its snapshot and another priority, and a \<^verbatim>\<open>priority\<close> event is sent for B.
\<close>

theorem stale_gate_notifies_unchanged_case:
  "trace (snd (cycle sim True
        (start (mk_world [mk_case ''A'' ''T0'' [] ''P2'' False, mk_case ''B'' ''T0'' [] ''P2'' False]
                         [Inr (mk_case ''A'' ''T1'' [] ''P1'' False),
                          Inr (mk_case ''B'' ''T0'' [] ''P1'' False)]))))
     = [GetCases, Search, Parse, Parse,
        Write (mk_case ''A'' ''T1'' [] ''P1'' False) ''g'',
        FirstIn ''A'' ''T1'' (Some \<lparr>fd_guid = ''g''\<rparr>),
        Notify (CaseNumber ''A'') ''priority'' (PStr ''P1''),
        Notify (CaseNumber ''B'') ''priority'' (PStr ''P1''),
        Sleep 10]
   \<and> update_time (mk_case ''B'' ''T0'' [] ''P1'' False)
     = update_time (mk_case ''B'' ''T0'' [] ''P2'' False)"
  by code_simp

subsection \<open>One process repeats an event\<close>

text \<open>
  Claim C1 does not hold of the code, already for a single process. The store
  holds snapshots of A and B; the live case A has a new update time and a new priority, the
  live case B a new priority only; the loop runs two iterations with the live cases
  unchanged, and this process is the first writer of A. Case B keeps
  the update time of its snapshot, so its snapshot is never rewritten and its priority
  differs from the live one in every iteration; \<^verbatim>\<open>guid\<close> and \<^verbatim>\<open>first_doc_in\<close> keep the
  values of the write for A in the first iteration. The \<^verbatim>\<open>priority\<close> event for B, one
  change of one field at one update time, is sent in the first iteration and again in the
  second.
\<close>

theorem single_process_repeats_event:
  "trace (snd (case_updates 2 sim False
        (start (mk_world [mk_case ''A'' ''T0'' [] ''P2'' False, mk_case ''B'' ''T0'' [] ''P2'' False]
                         [Inr (mk_case ''A'' ''T1'' [] ''P1'' False),
                          Inr (mk_case ''B'' ''T0'' [] ''P1'' False)]))))
     = [GetCases, Search, Parse, Parse,
        Write (mk_case ''A'' ''T1'' [] ''P1'' False) ''g'',
        FirstIn ''A'' ''T1'' (Some \<lparr>fd_guid = ''g''\<rparr>),
        Notify (CaseNumber ''A'') ''priority'' (PStr ''P1''),
        Notify (CaseNumber ''B'') ''priority'' (PStr ''P1''),
        Sleep 10,
        GetCases, Search, Parse, Parse,
        Notify (CaseNumber ''B'') ''priority'' (PStr ''P1''),
        Sleep 10]"
  by code_simp

subsection \<open>The comment of automatic subscription\<close>

text \<open>
  Claim C7 does not hold of the code. \<^verbatim>\<open>combined_new_emails\<close> is a list of three joined
  strings, which is never empty, so the test of line 214 always succeeds. Here the channel
  tracks no asset and no address is added, and the comment is posted all the same.
\<close>

theorem empty_subscription_still_comments:
  "trace (snd (auto_cc sim (mk_case ''A'' ''T1'' [] ''P1'' False) (start (mk_world [] []))))
     = [TrackedAssets, GetParent ''A'', ProjectsGet ''projects/p1'',
        CollectionGet ''CH1'' ''organizations'', CollectionGet ''CH1'' ''projects'',
        AddComment ''CH1'' ''A''
          ''The following emails have been added automatically through asset subscription: , , ''
          [] ''Auto Asset Subscription'' False]
   \<and> fst (auto_cc sim (mk_case ''A'' ''T1'' [] ''P1'' False) (start (mk_world [] []))) = Inr ()"
  by code_simp

end
